theory Spec2Isabelle
  imports Complex_Main
begin

unbundle bit_operations_syntax

section \<open>Vertex animation texture baking\<close>

text \<open>
  Python integers are \<^typ>\<open>int\<close>; sizes and indices that the source only ever
  obtains from \<open>len\<close> and \<open>range\<close> are \<^typ>\<open>nat\<close>. Exceptions are values.
  The quantizer is modelled with the rounding of IEEE double arithmetic. The vertex
  data and the UV coordinates are modelled over \<^typ>\<open>real\<close>: the statements about
  them are about the arithmetic the source writes down, without rounding.
\<close>

datatype py_error = IndexError | ZeroDivisionError | ValueError | OverflowError

text \<open>The module constant \<open>chunk_width = 128\<close>.\<close>

definition chunk_width :: nat where
  "chunk_width = 128"

subsection \<open>Python floats\<close>

text \<open>A Python float: a finite double, an infinity or a NaN.\<close>

datatype pyfloat = Finite real | PosInf | NegInf | NaN

text \<open>Rounding to the nearest integer, a tie to the even one.\<close>

definition round_half_even :: "real \<Rightarrow> int" where
  "round_half_even y =
     (let f = \<lfloor>y\<rfloor>; d = y - real_of_int f
      in if d < 1 / 2 then f else if 1 / 2 < d then f + 1
         else if even f then f else f + 1)"

text \<open>
  The double nearest to a real: 53 significant bits in the binade of \<open>x\<close>, the
  exponent not below that of the subnormals, a tie to the even significand.
  The exponent is not bounded above here; \<open>float_times\<close> turns a result of
  magnitude \<open>2^1024\<close> or more into an infinity.
\<close>

definition double_round :: "real \<Rightarrow> real" where
  "double_round x =
     (if x = 0 then 0
      else
        let e = max \<lfloor>log 2 \<bar>x\<bar>\<rfloor> (- 1022);
            u = 2 powr real_of_int (e - 52)
        in real_of_int (round_half_even (x / u)) * u)"

text \<open>\<open>a * c\<close> for a float \<open>a\<close> and a positive integer constant \<open>c\<close>.\<close>

definition float_times :: "pyfloat \<Rightarrow> real \<Rightarrow> pyfloat" where
  "float_times a c =
     (case a of
        NaN \<Rightarrow> NaN
      | PosInf \<Rightarrow> PosInf
      | NegInf \<Rightarrow> NegInf
      | Finite v \<Rightarrow>
          let r = double_round (v * c)
          in if 2 ^ 1024 \<le> r then PosInf
             else if r \<le> - (2 ^ 1024) then NegInf
             else Finite r)"

text \<open>
  Python's \<open>int(x)\<close> on a float truncates towards zero; it raises \<open>ValueError\<close> on a
  NaN and \<open>OverflowError\<close> on an infinity.
\<close>

definition py_int :: "real \<Rightarrow> int" where
  "py_int x = (if 0 \<le> x then \<lfloor>x\<rfloor> else \<lceil>x\<rceil>)"

definition int_of_float :: "pyfloat \<Rightarrow> py_error + int" where
  "int_of_float a =
     (case a of
        NaN \<Rightarrow> Inl ValueError
      | PosInf \<Rightarrow> Inl OverflowError
      | NegInf \<Rightarrow> Inl OverflowError
      | Finite x \<Rightarrow> Inr (py_int x))"

subsection \<open>\<open>float_to_bytes\<close> and \<open>write_output_image\<close>\<close>

text \<open>
  \<open>int_value = int(float_value * 65535)\<close>,
  \<open>high_byte = (int_value >> 8) & 0xFF\<close>, \<open>low_byte = int_value & 0xFF\<close>.
  On Python's unbounded integers \<open>>>\<close> and \<open>&\<close> are the two's complement
  operations, as \<^const>\<open>drop_bit\<close> and \<open>AND\<close> are on \<^typ>\<open>int\<close>.
\<close>

definition float_to_bytes :: "pyfloat \<Rightarrow> py_error + int \<times> int" where
  "float_to_bytes float_value =
     (case int_of_float (float_times float_value 65535) of
        Inl e \<Rightarrow> Inl e
      | Inr int_value \<Rightarrow>
          let high_byte = (drop_bit 8 int_value) AND 255;
              low_byte = int_value AND 255
          in Inr (high_byte, low_byte))"

text \<open>
  The conversion loop of \<open>write_output_image\<close>: the two planes handed to
  \<open>create_and_save_image\<close>, the high bytes first. \<open>high_byte / 255.0\<close> is a double
  division. The first exception ends the loop.
\<close>

fun byte_planes :: "pyfloat list \<Rightarrow> py_error + real list \<times> real list" where
  "byte_planes [] = Inr ([], [])"
| "byte_planes (pixel # pixel_list) =
     (case float_to_bytes pixel of
        Inl e \<Rightarrow> Inl e
      | Inr (high_byte, low_byte) \<Rightarrow>
          (case byte_planes pixel_list of
             Inl e \<Rightarrow> Inl e
           | Inr (high_bytes_list, low_bytes_list) \<Rightarrow>
               Inr (double_round (real_of_int high_byte / 255) # high_bytes_list,
                    double_round (real_of_int low_byte / 255) # low_bytes_list)))"

subsection \<open>\<open>create_export_mesh_object\<close>: the UV layout\<close>

text \<open>
  The body of the loop over \<open>me.loops\<close> for one loop with vertex index
  \<open>vertex_index\<close>. \<open>1.5 / current_pixel_width\<close> and
  \<open>index_in_chunk / (current_pixel_width - 1)\<close> raise \<open>ZeroDivisionError\<close> on a zero
  divisor. The result is the pair stored into \<open>uv_layer.data[loop.index].uv\<close>.
\<close>

definition loop_uv :: "nat \<Rightarrow> nat \<Rightarrow> nat \<Rightarrow> nat \<Rightarrow> py_error + real \<times> real" where
  "loop_uv texture_size chunks remainder vertex_index =
     (let chunk_number = vertex_index div texture_size;
          index_in_chunk = vertex_index mod texture_size;
          current_pixel_width = (if chunk_number < chunks then texture_size else remainder)
      in if current_pixel_width = 0 then Inl ZeroDivisionError
         else
           let pixel_center_offset = (3 / 2) / real current_pixel_width;
               scale_factor = 1 - 2 * pixel_center_offset
           in if int current_pixel_width - 1 = 0 then Inl ZeroDivisionError
              else Inr (real chunk_number
                        + scale_factor
                          * (real index_in_chunk / real_of_int (int current_pixel_width - 1))
                        + pixel_center_offset,
                        128 / 255))"

text \<open>The loop itself; the first exception ends it.\<close>

fun assign_uvs :: "nat \<Rightarrow> nat \<Rightarrow> nat \<Rightarrow> nat list \<Rightarrow> py_error + (real \<times> real) list" where
  "assign_uvs texture_size chunks remainder [] = Inr []"
| "assign_uvs texture_size chunks remainder (vertex_index # loops) =
     (case loop_uv texture_size chunks remainder vertex_index of
        Inl e \<Rightarrow> Inl e
      | Inr uv \<Rightarrow>
          (case assign_uvs texture_size chunks remainder loops of
             Inl e \<Rightarrow> Inl e
           | Inr uvs \<Rightarrow> Inr (uv # uvs)))"

text \<open>
  \<open>create_export_mesh_object\<close> with the texture size as a parameter. A mesh is given
  by its number of vertices and the vertex indices of its loops, in loop order; the
  result lists the UV of every loop. \<open>max_vertex_index // texture_size\<close> is evaluated
  before the loop.
\<close>

definition export_mesh_uvs :: "nat \<Rightarrow> nat \<Rightarrow> nat list \<Rightarrow> py_error + (real \<times> real) list" where
  "export_mesh_uvs texture_size max_vertex_index loops =
     (if texture_size = 0 then Inl ZeroDivisionError
      else
        let chunks = max_vertex_index div texture_size;
            remainder = max_vertex_index mod texture_size
        in assign_uvs texture_size chunks remainder loops)"

definition create_export_mesh_object :: "nat \<Rightarrow> nat list \<Rightarrow> py_error + (real \<times> real) list" where
  "create_export_mesh_object max_vertex_index loops =
     (let texture_size = chunk_width in export_mesh_uvs texture_size max_vertex_index loops)"

subsection \<open>\<open>get_vertex_data\<close>: offsets and normals\<close>

type_synonym vec3 = "real \<times> real \<times> real"

record vertex =
  co :: vec3
  normal :: vec3

text \<open>A mesh is its vertex list; \<open>v.index\<close> is the position of \<open>v\<close> in it.\<close>

type_synonym mesh = "vertex list"

definition vec_sub :: "vec3 \<Rightarrow> vec3 \<Rightarrow> vec3" where
  "vec_sub a b = (case a of (ax, ay, az) \<Rightarrow> case b of (bx, by, bz) \<Rightarrow> (ax - bx, ay - by, az - bz))"

definition vec_length :: "vec3 \<Rightarrow> real" where
  "vec_length a = (case a of (x, y, z) \<Rightarrow> sqrt (x * x + y * y + z * z))"

definition vec_div :: "vec3 \<Rightarrow> real \<Rightarrow> vec3" where
  "vec_div a s = (case a of (x, y, z) \<Rightarrow> (x / s, y / s, z / s))"

text \<open>The four values appended to \<open>offsets\<close> and to \<open>normals\<close> for one vertex.\<close>

definition offset_pixel :: "vec3 \<Rightarrow> real list" where
  "offset_pixel offset = (case offset of (x, y, z) \<Rightarrow>
     [(x + 1) * (1 / 2), (- y + 1) * (1 / 2), (z + 1) * (1 / 2), 1])"

definition normal_pixel :: "vec3 \<Rightarrow> real list" where
  "normal_pixel n = (case n of (x, y, z) \<Rightarrow>
     [(x + 1) * (1 / 2), (y + 1) * (1 / 2), (z + 1) * (1 / 2), 1])"

text \<open>
  The first pair of loops: the running maximum of the offset lengths.
  \<open>original[v.index]\<close> raises \<open>IndexError\<close> beyond the rest mesh.
\<close>

fun max_offset_mesh :: "mesh \<Rightarrow> nat \<Rightarrow> vertex list \<Rightarrow> real \<Rightarrow> py_error + real" where
  "max_offset_mesh original index [] max_offset_length = Inr max_offset_length"
| "max_offset_mesh original index (v # vs) max_offset_length =
     (if index < length original then
        let offset_length = vec_length (vec_sub (co v) (co (original ! index)))
        in max_offset_mesh original (Suc index) vs
             (if offset_length > max_offset_length then offset_length else max_offset_length)
      else Inl IndexError)"

fun max_offset_meshes :: "mesh \<Rightarrow> mesh list \<Rightarrow> real \<Rightarrow> py_error + real" where
  "max_offset_meshes original [] max_offset_length = Inr max_offset_length"
| "max_offset_meshes original (me # mes) max_offset_length =
     (case max_offset_mesh original 0 me max_offset_length of
        Inl e \<Rightarrow> Inl e
      | Inr m \<Rightarrow> max_offset_meshes original mes m)"

text \<open>
  The second pair of loops, extending \<open>offsets\<close> and \<open>normals\<close>. Dividing a vector
  by zero raises \<open>ZeroDivisionError\<close>.
\<close>

fun emit_mesh ::
  "mesh \<Rightarrow> real \<Rightarrow> nat \<Rightarrow> vertex list \<Rightarrow> real list \<times> real list
   \<Rightarrow> py_error + real list \<times> real list" where
  "emit_mesh original max_offset_length index [] acc = Inr acc"
| "emit_mesh original max_offset_length index (v # vs) acc =
     (if index < length original then
        if max_offset_length = 0 then Inl ZeroDivisionError
        else
          let offset = vec_div (vec_sub (co v) (co (original ! index))) max_offset_length
          in emit_mesh original max_offset_length (Suc index) vs
               (fst acc @ offset_pixel offset, snd acc @ normal_pixel (normal v))
      else Inl IndexError)"

fun emit_meshes ::
  "mesh \<Rightarrow> real \<Rightarrow> mesh list \<Rightarrow> real list \<times> real list
   \<Rightarrow> py_error + real list \<times> real list" where
  "emit_meshes original max_offset_length [] acc = Inr acc"
| "emit_meshes original max_offset_length (me # mes) acc =
     (case emit_mesh original max_offset_length 0 me acc of
        Inl e \<Rightarrow> Inl e
      | Inr acc' \<Rightarrow> emit_meshes original max_offset_length mes acc')"

text \<open>
  \<open>get_vertex_data\<close>. The result is the value written to
  \<open>context.scene.scale_factor\<close> followed by the returned \<open>offsets\<close> and \<open>normals\<close>.
  \<open>meshes[0]\<close> raises \<open>IndexError\<close> on an empty list.
\<close>

definition get_vertex_data :: "mesh list \<Rightarrow> py_error + real \<times> real list \<times> real list" where
  "get_vertex_data meshes =
     (case meshes of
        [] \<Rightarrow> Inl IndexError
      | original # _ \<Rightarrow>
          (case max_offset_meshes original (rev meshes) 0 of
             Inl e \<Rightarrow> Inl e
           | Inr m \<Rightarrow>
               let max_offset_length = (if m = 0 then 1 else m)
               in (case emit_meshes original max_offset_length (rev meshes) ([], []) of
                     Inl e \<Rightarrow> Inl e
                   | Inr (offsets, normals) \<Rightarrow> Inr (max_offset_length, offsets, normals))))"

text \<open>
  The row of one mesh in the two planes: the values the inner loop of the second pass
  appends for the vertices \<open>0, 1, ...\<close> of \<open>me\<close>, one pixel of four values each.
  Lemma \<open>emit_mesh_rows\<close> below relates them to the loop.
\<close>

definition frame_offsets :: "mesh \<Rightarrow> real \<Rightarrow> mesh \<Rightarrow> real list" where
  "frame_offsets original max_offset_length me =
     concat (map (\<lambda>k. offset_pixel
                        (vec_div (vec_sub (co (me ! k)) (co (original ! k))) max_offset_length))
                 [0..<length me])"

definition frame_normals :: "mesh \<Rightarrow> real list" where
  "frame_normals me = concat (map (\<lambda>k. normal_pixel (normal (me ! k))) [0..<length me])"

subsection \<open>\<open>create_and_save_image\<close>: chunked images\<close>

text \<open>
  What is handed to the host for one chunk: the name \<open>{name_postfix}_part{i}\<close>, the
  size given to \<open>images.new\<close>, the pixel list, and the size given to \<open>scale\<close> when
  the image is scaled.
\<close>

record chunk_image =
  name_postfix :: string
  part :: nat
  img_width :: nat
  img_height :: nat
  pixels :: "real list"
  scaled_to :: "(nat \<times> nat) option"

definition padding :: "real list" where
  "padding = [127 / 255, 127 / 255, 127 / 255, 1]"

text \<open>Python's \<open>xs[start:end]\<close> for indices that are not negative.\<close>

definition py_slice :: "'a list \<Rightarrow> nat \<Rightarrow> nat \<Rightarrow> 'a list" where
  "py_slice xs start_index end_index = take (end_index - start_index) (drop start_index xs)"

text \<open>One pass of the loop over \<open>y\<close>: what it appends to \<open>chunk_bytes\<close>.\<close>

definition chunk_row :: "nat \<Rightarrow> real list \<Rightarrow> nat \<Rightarrow> nat \<Rightarrow> nat \<Rightarrow> nat \<Rightarrow> nat \<Rightarrow> real list" where
  "chunk_row cw byte_list width chunk_count remainder_width i y =
     (let start_index = (y * width + i * cw) * 4;
          end_index = (if i = chunk_count then start_index + remainder_width * 4
                       else start_index + cw * 4)
      in padding @ py_slice byte_list start_index end_index @ padding)"

text \<open>
  One pass of the loop over \<open>i\<close>. The host rejects the assignment
  \<open>chunk_image.pixels = chunk_bytes\<close> with \<open>ValueError\<close> when the list does not hold
  four values for every pixel of the image.
\<close>

definition build_chunk ::
  "nat \<Rightarrow> real list \<Rightarrow> string \<Rightarrow> nat \<Rightarrow> nat \<Rightarrow> nat \<Rightarrow> nat \<Rightarrow> nat
   \<Rightarrow> py_error + chunk_image" where
  "build_chunk cw byte_list name width height chunk_count remainder_width i =
     (let chunk_bytes = concat (map (chunk_row cw byte_list width chunk_count remainder_width i)
                                    [0..<height]);
          chunk_img_width = (if i \<noteq> chunk_count then cw + 2 else remainder_width + 2)
      in if length chunk_bytes \<noteq> chunk_img_width * height * 4 then Inl ValueError
         else
           let target_width = max 32 chunk_img_width;
               target_height = max 32 height
           in Inr \<lparr> name_postfix = name, part = i,
                     img_width = chunk_img_width, img_height = height,
                     pixels = chunk_bytes,
                     scaled_to = (if chunk_img_width < 32 \<or> height < 32
                                  then Some (target_width, target_height) else None) \<rparr>)"

text \<open>The loop over \<open>i\<close>: the images saved, in order; the first exception ends it.\<close>

fun save_chunks :: "(nat \<Rightarrow> py_error + chunk_image) \<Rightarrow> nat list \<Rightarrow> py_error + chunk_image list" where
  "save_chunks build [] = Inr []"
| "save_chunks build (i # rest) =
     (case build i of
        Inl e \<Rightarrow> Inl e
      | Inr chunk_image \<Rightarrow>
          (case save_chunks build rest of
             Inl e \<Rightarrow> Inl e
           | Inr images \<Rightarrow> Inr (chunk_image # images)))"

text \<open>
  \<open>create_and_save_image\<close> with the chunk width as a parameter.
  \<open>width // chunk_width\<close> raises on a zero chunk width.
\<close>

definition chunk_images ::
  "nat \<Rightarrow> real list \<Rightarrow> string \<Rightarrow> nat \<times> nat \<Rightarrow> py_error + chunk_image list" where
  "chunk_images cw byte_list name size' =
     (case size' of (width, height) \<Rightarrow>
        if cw = 0 then Inl ZeroDivisionError
        else
          let chunk_count = width div cw;
              remainder_width = width mod cw
          in save_chunks (build_chunk cw byte_list name width height chunk_count remainder_width)
               [0..<chunk_count + (if remainder_width \<noteq> 0 then 1 else 0)])"

definition create_and_save_image ::
  "real list \<Rightarrow> string \<Rightarrow> nat \<times> nat \<Rightarrow> py_error + chunk_image list" where
  "create_and_save_image byte_list name size' = chunk_images chunk_width byte_list name size'"

text \<open>
  How a saved chunk is read back: row \<open>y\<close> of the image (its \<open>img_width\<close> pixels of
  four values), without the first and the last pixel of the row, which are padding.
\<close>

definition chunk_data_row :: "chunk_image \<Rightarrow> nat \<Rightarrow> real list" where
  "chunk_data_row im y =
     take ((img_width im - 2) * 4)
       (drop 4 (take (img_width im * 4) (drop (y * (img_width im * 4)) (pixels im))))"

text \<open>\<open>write_output_image\<close>: the high byte images, then the low byte images.\<close>

definition write_output_image ::
  "pyfloat list \<Rightarrow> string \<Rightarrow> nat \<times> nat \<Rightarrow> py_error + chunk_image list" where
  "write_output_image pixel_list name size' =
     (case byte_planes pixel_list of
        Inl e \<Rightarrow> Inl e
      | Inr (high_bytes_list, low_bytes_list) \<Rightarrow>
          (case create_and_save_image high_bytes_list (name @ ''_high'') size' of
             Inl e \<Rightarrow> Inl e
           | Inr high_images \<Rightarrow>
               (case create_and_save_image low_bytes_list (name @ ''_low'') size' of
                  Inl e \<Rightarrow> Inl e
                | Inr low_images \<Rightarrow> Inr (high_images @ low_images))))"

definition bake_vertex_data ::
  "pyfloat list \<Rightarrow> pyfloat list \<Rightarrow> nat \<times> nat \<Rightarrow> string \<Rightarrow> py_error + chunk_image list" where
  "bake_vertex_data offsets normals size' name =
     (case write_output_image offsets (name @ ''_position'') size' of
        Inl e \<Rightarrow> Inl e
      | Inr position_images \<Rightarrow>
          (case write_output_image normals (name @ ''_normal'') size' of
             Inl e \<Rightarrow> Inl e
           | Inr normal_images \<Rightarrow> Inr (position_images @ normal_images)))"

subsection \<open>The operator \<open>OBJECT_OT_ProcessAnimMeshes.execute\<close>\<close>

record scene =
  frame_start :: int
  frame_end :: int
  frame_step :: int
  unit_system :: string
  scale_length :: real
  display_device :: string
  scale_factor :: real

record scene_object =
  ob_type :: string
  vertices_count :: nat
  modifiers :: "string list"

datatype status = CANCELLED | FINISHED

text \<open>The three messages given to \<open>self.report({'ERROR'}, ...)\<close>, with their argument.\<close>

datatype report =
    Modifier_not_allowed string
  | Scene_unit_not_metric
  | Vertex_count_exceeds nat
  | Frame_count_exceeds nat

text \<open>The calls of \<open>execute\<close> that act on the host, in the order they are made.\<close>

datatype event =
    Set_metric_units
  | Report_error report
  | Set_display_device_none
  | Get_per_frame_mesh_data
  | Create_export_mesh_object
  | Get_vertex_data
  | Bake_vertex_data
  | Export_mesh
  | Restore_display_device
  | Reset_unit_settings

definition allowed_modifiers :: "string list" where
  "allowed_modifiers =
     [''ARMATURE'', ''CAST'', ''CURVE'', ''DISPLACE'', ''HOOK'',
      ''LAPLACIANDEFORM'', ''LATTICE'', ''MESH_DEFORM'', ''MESH_SEQUENCE_CACHE'',
      ''SHRINKWRAP'', ''SIMPLE_DEFORM'', ''SMOOTH'',
      ''CORRECTIVE_SMOOTH'', ''LAPLACIANSMOOTH'',
      ''SURFACE_DEFORM'', ''WARP'', ''WAVE'']"

text \<open>\<open>len(range(start, stop, step))\<close>; \<open>range\<close> raises \<open>ValueError\<close> on a zero step.\<close>

definition range_len :: "int \<Rightarrow> int \<Rightarrow> int \<Rightarrow> py_error + nat" where
  "range_len start stop step =
     (if step = 0 then Inl ValueError
      else if 0 < step then
        (if start < stop then Inr (nat ((stop - start - 1) div step + 1)) else Inr 0)
      else
        (if stop < start then Inr (nat ((start - stop - 1) div (- step) + 1)) else Inr 0))"

text \<open>\<open>len(frame_range(scene))\<close>.\<close>

definition frame_range_len :: "scene \<Rightarrow> py_error + nat" where
  "frame_range_len sc = range_len (frame_start sc) (frame_end sc) (frame_step sc)"

text \<open>\<open>round(x, 2)\<close>: to two decimals, a tie to the even neighbour.\<close>

definition py_round2 :: "real \<Rightarrow> real" where
  "py_round2 x =
     (let y = x * 100; f = \<lfloor>y\<rfloor>; d = y - real_of_int f
      in real_of_int (if d < 1 / 2 then f else if 1 / 2 < d then f + 1
                      else if even f then f else f + 1) / 100)"

definition set_metric_units :: "scene \<Rightarrow> scene" where
  "set_metric_units sc = sc\<lparr>unit_system := ''METRIC'', scale_length := 1 / 100\<rparr>"

definition reset_unit_settings :: "scene \<Rightarrow> string \<times> real \<Rightarrow> scene" where
  "reset_unit_settings sc original_settings =
     sc\<lparr>unit_system := fst original_settings, scale_length := snd original_settings\<rparr>"

text \<open>
  What a run leaves: how it ended, the calls it made, the scene, and, for a run that
  finished, the UVs written and the images saved.
\<close>

record exec_result =
  outcome :: "py_error + status"
  trace :: "event list"
  scene_after :: scene
  export_uvs :: "(real \<times> real) list"
  saved_images :: "chunk_image list"

text \<open>
  The part of \<open>execute\<close> after the four checks. The host supplies what
  \<open>get_per_frame_mesh_data\<close> returns (\<open>meshes\<close>) and the loops of the rest mesh
  (\<open>loops\<close>, their vertex indices). The planes of \<open>get_vertex_data\<close> reach the
  quantizer as finite floats. An exception leaves \<open>execute\<close> at once.
\<close>

definition bake_stage ::
  "scene \<Rightarrow> string \<times> real \<Rightarrow> nat \<Rightarrow> nat \<Rightarrow> string \<Rightarrow> mesh list \<Rightarrow> nat list \<Rightarrow> exec_result" where
  "bake_stage sc original_settings vertex_count frame_count myname meshes loops =
     (let current_display_device = display_device sc;
          sc1 = sc\<lparr>display_device := ''None''\<rparr>;
          t1 = [Set_metric_units, Set_display_device_none, Get_per_frame_mesh_data]
      in case meshes of
           [] \<Rightarrow> \<lparr>outcome = Inl IndexError, trace = t1, scene_after = sc1,
                  export_uvs = [], saved_images = []\<rparr>
         | export_mesh_data # _ \<Rightarrow>
             (case create_export_mesh_object (length export_mesh_data) loops of
                Inl e \<Rightarrow> \<lparr>outcome = Inl e, trace = t1 @ [Create_export_mesh_object],
                          scene_after = sc1, export_uvs = [], saved_images = []\<rparr>
              | Inr uvs \<Rightarrow>
                  (case get_vertex_data meshes of
                     Inl e \<Rightarrow> \<lparr>outcome = Inl e,
                               trace = t1 @ [Create_export_mesh_object, Get_vertex_data],
                               scene_after = sc1, export_uvs = uvs, saved_images = []\<rparr>
                   | Inr (max_offset_length, offsets, normals) \<Rightarrow>
                       (let sc2 = sc1\<lparr>scale_factor := max_offset_length\<rparr>;
                            texture_size = (vertex_count, frame_count)
                        in case bake_vertex_data (map Finite offsets) (map Finite normals)
                                  texture_size myname of
                             Inl e \<Rightarrow>
                               \<lparr>outcome = Inl e,
                                trace = t1 @ [Create_export_mesh_object, Get_vertex_data,
                                              Bake_vertex_data],
                                scene_after = sc2, export_uvs = uvs, saved_images = []\<rparr>
                           | Inr images \<Rightarrow>
                               \<lparr>outcome = Inr FINISHED,
                                trace = t1 @ [Create_export_mesh_object, Get_vertex_data,
                                              Bake_vertex_data, Export_mesh,
                                              Restore_display_device, Reset_unit_settings],
                                scene_after =
                                  reset_unit_settings
                                    (sc2\<lparr>display_device := current_display_device\<rparr>)
                                    original_settings,
                                export_uvs = uvs, saved_images = images\<rparr>))))"

text \<open>A cancelled run: the report, and \<open>return {'CANCELLED'}\<close>.\<close>

definition cancelled :: "scene \<Rightarrow> report \<Rightarrow> exec_result" where
  "cancelled sc r =
     \<lparr>outcome = Inr CANCELLED, trace = [Set_metric_units, Report_error r],
      scene_after = sc, export_uvs = [], saved_images = []\<rparr>"

definition execute ::
  "scene \<Rightarrow> scene_object list \<Rightarrow> string \<Rightarrow> mesh list \<Rightarrow> nat list \<Rightarrow> exec_result" where
  "execute sc0 selected_objects myname meshes loops =
     (let original_settings = (unit_system sc0, scale_length sc0);
          sc = set_metric_units sc0;
          objects = filter (\<lambda>ob. ob_type ob = ''MESH'') selected_objects;
          vertex_count = sum_list (map vertices_count objects)
      in case frame_range_len sc of
           Inl e \<Rightarrow> \<lparr>outcome = Inl e, trace = [Set_metric_units], scene_after = sc,
                     export_uvs = [], saved_images = []\<rparr>
         | Inr frame_count \<Rightarrow>
             (case find (\<lambda>mod_type. mod_type \<notin> set allowed_modifiers)
                        (concat (map modifiers objects)) of
                Some mod_type \<Rightarrow> cancelled sc (Modifier_not_allowed mod_type)
              | None \<Rightarrow>
                  if unit_system sc \<noteq> ''METRIC'' \<or> py_round2 (scale_length sc) \<noteq> 1 / 100
                  then cancelled sc Scene_unit_not_metric
                  else if 2048 < vertex_count
                  then cancelled sc (Vertex_count_exceeds vertex_count)
                  else if 1024 < frame_count
                  then cancelled sc (Frame_count_exceeds frame_count)
                  else bake_stage sc original_settings vertex_count frame_count myname
                         meshes loops))"

text \<open>The events that sample meshes or encode.\<close>

fun is_work :: "event \<Rightarrow> bool" where
  "is_work Get_per_frame_mesh_data = True"
| "is_work Create_export_mesh_object = True"
| "is_work Get_vertex_data = True"
| "is_work Bake_vertex_data = True"
| "is_work Export_mesh = True"
| "is_work _ = False"

section \<open>Properties\<close>

subsection \<open>Double rounding\<close>

lemma round_half_even_bounds:
  "\<lfloor>y\<rfloor> \<le> round_half_even y" "round_half_even y \<le> \<lceil>y\<rceil>"
proof -
  show "\<lfloor>y\<rfloor> \<le> round_half_even y"
    by (simp add: round_half_even_def Let_def)
  have "\<lfloor>y\<rfloor> + 1 \<le> \<lceil>y\<rceil>" if "y \<noteq> real_of_int \<lfloor>y\<rfloor>"
    using that by (metis ceiling_altdef of_int_floor_cancel order_refl)
  moreover have "\<lfloor>y\<rfloor> \<le> \<lceil>y\<rceil>" by (simp add: floor_le_ceiling)
  ultimately show "round_half_even y \<le> \<lceil>y\<rceil>"
    by (auto simp: round_half_even_def Let_def)
qed

lemma round_half_even_ge_int:
  assumes "real_of_int n \<le> y"
  shows "n \<le> round_half_even y"
proof -
  have "n \<le> \<lfloor>y\<rfloor>" using assms by (simp add: le_floor_iff)
  then show ?thesis using round_half_even_bounds(1) [of y] by linarith
qed

lemma round_half_even_le_int:
  assumes "y \<le> real_of_int n"
  shows "round_half_even y \<le> n"
proof -
  have "\<lceil>y\<rceil> \<le> n" using assms by (simp add: ceiling_le_iff)
  then show ?thesis using round_half_even_bounds(2) [of y] by linarith
qed

lemma round_half_even_mono:
  assumes "a \<le> b"
  shows "round_half_even a \<le> round_half_even b"
proof (cases "\<lfloor>a\<rfloor> = \<lfloor>b\<rfloor>")
  case True
  have "a - real_of_int \<lfloor>a\<rfloor> \<le> b - real_of_int \<lfloor>b\<rfloor>"
    using assms True by simp
  then show ?thesis
    by (auto simp: round_half_even_def Let_def True)
next
  case False
  have "\<lfloor>a\<rfloor> \<le> \<lfloor>b\<rfloor>" using assms by (rule floor_mono)
  then have lt: "\<lfloor>a\<rfloor> + 1 \<le> \<lfloor>b\<rfloor>" using False by simp
  have "round_half_even a \<le> \<lfloor>a\<rfloor> + 1"
    by (simp add: round_half_even_def Let_def)
  also note lt
  also have "\<lfloor>b\<rfloor> \<le> round_half_even b" by (rule round_half_even_bounds(1))
  finally show ?thesis .
qed

lemma double_round_unfold:
  assumes "x \<noteq> 0" and "e = max \<lfloor>log 2 \<bar>x\<bar>\<rfloor> (- 1022)"
    and "u = 2 powr real_of_int (e - 52)"
  shows "double_round x = real_of_int (round_half_even (x / u)) * u"
  using assms by (simp add: double_round_def Let_def)

lemma binade_exponent_le:
  assumes "x \<noteq> 0" and "\<bar>x\<bar> < 2 ^ n"
  shows "max \<lfloor>log 2 \<bar>x\<bar>\<rfloor> (- 1022) \<le> int n - 1"
proof -
  have pos: "0 < \<bar>x\<bar>" using assms(1) by simp
  have "log 2 \<bar>x\<bar> < log 2 (2 ^ n)"
    using pos assms(2) by (subst log_less_cancel_iff) simp_all
  also have "log 2 (2 ^ n) = real n"
    by (simp add: log_nat_power)
  finally have "\<lfloor>log 2 \<bar>x\<bar>\<rfloor> < int n" by (simp add: floor_less_iff)
  then show ?thesis by simp
qed

lemma ulp_inverse_power:
  assumes "e \<le> 52 - int m"
  shows "2 powr real_of_int (e - 52) = 1 / (2 ^ m * 2 ^ nat (52 - int m - e))"
proof -
  define N where "N = m + nat (52 - int m - e)"
  have "e - 52 = - int N"
    using assms by (simp add: N_def)
  then have "2 powr real_of_int (e - 52) = 2 powr (- real N)"
    by simp
  also have "\<dots> = inverse (2 powr real N)"
    by (rule powr_minus)
  also have "2 powr real N = 2 ^ N"
    by (simp add: powr_realpow)
  finally show ?thesis by (simp add: N_def power_add divide_inverse)
qed


text \<open>Below 2^(53-m) the unit in the last place divides 2^(-m).\<close>

lemma double_round_scaled:
  assumes "x \<noteq> 0" and "\<bar>x\<bar> < 2 ^ (53 - m)" and "m \<le> 53"
  shows "\<exists>J::nat. double_round x
           = real_of_int (round_half_even (x * (2 ^ m * 2 ^ J))) / (2 ^ m * 2 ^ J)"
proof -
  define e where "e = max \<lfloor>log 2 \<bar>x\<bar>\<rfloor> (- 1022)"
  define u where "u = 2 powr real_of_int (e - 52)"
  define J where "J = nat (52 - int m - e)"
  have "e \<le> int (53 - m) - 1"
    unfolding e_def by (rule binade_exponent_le [OF assms(1,2)])
  then have e: "e \<le> 52 - int m" using assms(3) by simp
  have u: "u = 1 / (2 ^ m * 2 ^ J)"
    unfolding u_def J_def by (rule ulp_inverse_power [OF e])
  have "double_round x = real_of_int (round_half_even (x / u)) * u"
    by (rule double_round_unfold [OF assms(1) e_def u_def])
  then have "double_round x
           = real_of_int (round_half_even (x * (2 ^ m * 2 ^ J))) / (2 ^ m * 2 ^ J)"
    by (simp add: u)
  then show ?thesis by blast
qed

lemma double_round_grid:
  assumes "\<bar>x\<bar> < 2 ^ (53 - m)" and "m \<le> 53"
  shows "real_of_int k / 2 ^ m \<le> x \<Longrightarrow> real_of_int k / 2 ^ m \<le> double_round x"
    and "x \<le> real_of_int k / 2 ^ m \<Longrightarrow> double_round x \<le> real_of_int k / 2 ^ m"
proof -
  show "real_of_int k / 2 ^ m \<le> double_round x" if le: "real_of_int k / 2 ^ m \<le> x"
  proof (cases "x = 0")
    case True
    then show ?thesis using le by (simp add: double_round_def)
  next
    case False
    from double_round_scaled [OF False assms]
    obtain J :: nat where dr: "double_round x
           = real_of_int (round_half_even (x * (2 ^ m * 2 ^ J))) / (2 ^ m * 2 ^ J)"
      by blast
    define M :: real where "M = 2 ^ m * 2 ^ J"
    have M: "0 < M" by (simp add: M_def)
    have "real_of_int k \<le> x * 2 ^ m" using le by (simp add: pos_divide_le_eq)
    then have "real_of_int k * 2 ^ J \<le> x * 2 ^ m * 2 ^ J"
      by (simp add: mult_right_mono)
    then have "real_of_int (k * 2 ^ J) \<le> x * M"
      by (simp add: M_def mult.assoc)
    then have "k * 2 ^ J \<le> round_half_even (x * M)"
      by (rule round_half_even_ge_int)
    then have "real_of_int (k * 2 ^ J) \<le> real_of_int (round_half_even (x * M))"
      by (simp only: of_int_le_iff)
    then have "real_of_int (k * 2 ^ J) / M \<le> real_of_int (round_half_even (x * M)) / M"
      using M by (simp add: divide_right_mono)
    moreover have "real_of_int (k * 2 ^ J) / M = real_of_int k / 2 ^ m"
      by (simp add: M_def)
    ultimately show ?thesis by (simp add: dr M_def)
  qed
  show "double_round x \<le> real_of_int k / 2 ^ m" if le: "x \<le> real_of_int k / 2 ^ m"
  proof (cases "x = 0")
    case True
    then show ?thesis using le by (simp add: double_round_def)
  next
    case False
    from double_round_scaled [OF False assms]
    obtain J :: nat where dr: "double_round x
           = real_of_int (round_half_even (x * (2 ^ m * 2 ^ J))) / (2 ^ m * 2 ^ J)"
      by blast
    define M :: real where "M = 2 ^ m * 2 ^ J"
    have M: "0 < M" by (simp add: M_def)
    have "x * 2 ^ m \<le> real_of_int k" using le by (simp add: pos_le_divide_eq)
    then have "x * 2 ^ m * 2 ^ J \<le> real_of_int k * 2 ^ J"
      by (simp add: mult_right_mono)
    then have "x * M \<le> real_of_int (k * 2 ^ J)"
      by (simp add: M_def mult.assoc)
    then have "round_half_even (x * M) \<le> k * 2 ^ J"
      by (rule round_half_even_le_int)
    then have "real_of_int (round_half_even (x * M)) \<le> real_of_int (k * 2 ^ J)"
      by (simp only: of_int_le_iff)
    then have "real_of_int (round_half_even (x * M)) / M \<le> real_of_int (k * 2 ^ J) / M"
      using M by (simp add: divide_right_mono)
    moreover have "real_of_int (k * 2 ^ J) / M = real_of_int k / 2 ^ m"
      by (simp add: M_def)
    ultimately show ?thesis by (simp add: dr M_def)
  qed
qed

lemma double_round_exact:
  assumes "x = real_of_int k / 2 ^ m" and "\<bar>x\<bar> < 2 ^ (53 - m)" and "m \<le> 53"
  shows "double_round x = x"
proof -
  have "real_of_int k / 2 ^ m \<le> double_round x"
    using double_round_grid(1) [OF assms(2,3), of k] assms(1) by simp
  moreover have "double_round x \<le> real_of_int k / 2 ^ m"
    using double_round_grid(2) [OF assms(2,3), of k] assms(1) by simp
  ultimately show ?thesis using assms(1) by simp
qed

lemma double_round_int_bounds:
  assumes "\<bar>x\<bar> < 2 ^ 53"
  shows "real_of_int k \<le> x \<Longrightarrow> real_of_int k \<le> double_round x"
    and "x \<le> real_of_int k \<Longrightarrow> double_round x \<le> real_of_int k"
  using double_round_grid [of x 0 k] assms by simp_all

lemma binade_bounds:
  assumes "0 < x"
  shows "2 powr real_of_int \<lfloor>log 2 x\<rfloor> \<le> x"
    and "x < 2 powr real_of_int (\<lfloor>log 2 x\<rfloor> + 1)"
  using floor_log_eq_powr_iff [of x 2 "\<lfloor>log 2 x\<rfloor>"] assms by simp_all

lemma double_round_mono:
  assumes "0 \<le> x" and "x \<le> y"
  shows "double_round x \<le> double_round y"
proof (cases "x = 0")
  case True
  have "\<bar>0::real\<bar> < 2 ^ (53 - 0)" by simp
  show ?thesis
  proof (cases "y = 0")
    case True
    then show ?thesis using \<open>x = 0\<close> by simp
  next
    case False
    define e where "e = max \<lfloor>log 2 \<bar>y\<bar>\<rfloor> (- 1022)"
    define u where "u = 2 powr real_of_int (e - 52)"
    have dy: "double_round y = real_of_int (round_half_even (y / u)) * u"
      by (rule double_round_unfold [OF False e_def u_def])
    have u: "0 < u" by (simp add: u_def)
    have "real_of_int 0 \<le> y / u" using assms True u by simp
    then have "0 \<le> round_half_even (y / u)" by (rule round_half_even_ge_int)
    then have "0 \<le> double_round y" using u by (simp add: dy)
    then show ?thesis using True by (simp add: double_round_def)
  qed
next
  case False
  then have x: "0 < x" and y: "0 < y" using assms by simp_all
  define ex where "ex = max \<lfloor>log 2 \<bar>x\<bar>\<rfloor> (- 1022)"
  define ux where "ux = 2 powr real_of_int (ex - 52)"
  define ey where "ey = max \<lfloor>log 2 \<bar>y\<bar>\<rfloor> (- 1022)"
  define uy where "uy = 2 powr real_of_int (ey - 52)"
  have dx: "double_round x = real_of_int (round_half_even (x / ux)) * ux"
    using x by (intro double_round_unfold [OF _ ex_def ux_def]) simp
  have dy: "double_round y = real_of_int (round_half_even (y / uy)) * uy"
    using y by (intro double_round_unfold [OF _ ey_def uy_def]) simp
  have ux: "0 < ux" and uy: "0 < uy" by (simp_all add: ux_def uy_def)
  have "log 2 x \<le> log 2 y" using x y assms(2) by simp
  then have fl: "\<lfloor>log 2 x\<rfloor> \<le> \<lfloor>log 2 y\<rfloor>" by (rule floor_mono)
  then have exy: "ex \<le> ey" using x y by (simp add: ex_def ey_def)
  show ?thesis
  proof (cases "ex = ey")
    case True
    then have same: "ux = uy" by (simp add: ux_def uy_def)
    have "x / uy \<le> y / uy" using assms(2) uy by (simp add: divide_right_mono)
    then have "round_half_even (x / uy) \<le> round_half_even (y / uy)"
      by (rule round_half_even_mono)
    then have "real_of_int (round_half_even (x / uy)) * uy
             \<le> real_of_int (round_half_even (y / uy)) * uy"
      using uy by (simp add: mult_right_mono)
    then show ?thesis by (simp add: dx dy same)
  next
    case False
    then have lt: "ex + 1 \<le> ey" using exy by simp
    have "\<lfloor>log 2 x\<rfloor> \<le> ex" using x by (simp add: ex_def)
    then have "2 powr real_of_int (\<lfloor>log 2 x\<rfloor> + 1) \<le> 2 powr real_of_int (ex + 1)"
      by simp
    then have xb: "x \<le> 2 powr real_of_int (ex + 1)"
      using binade_bounds(2) [OF x] by linarith
    have "2 powr real_of_int (ex + 1) / ux = 2 powr (real_of_int (ex + 1) - real_of_int (ex - 52))"
      unfolding ux_def by (rule powr_diff [symmetric])
    also have "\<dots> = 2 powr 53" by simp
    also have "\<dots> = real_of_int (2 ^ 53)" by simp
    finally have top: "2 powr real_of_int (ex + 1) / ux = real_of_int (2 ^ 53)" .
    have "x / ux \<le> 2 powr real_of_int (ex + 1) / ux"
      using xb ux by (simp add: divide_right_mono)
    then have "x / ux \<le> real_of_int (2 ^ 53)" by (simp only: top)
    then have "round_half_even (x / ux) \<le> 2 ^ 53" by (rule round_half_even_le_int)
    then have "real_of_int (round_half_even (x / ux)) \<le> real_of_int (2 ^ 53)"
      by (simp only: of_int_le_iff)
    then have "real_of_int (round_half_even (x / ux)) * ux \<le> real_of_int (2 ^ 53) * ux"
      using ux by (simp add: mult_right_mono)
    also have "real_of_int (2 ^ 53) * ux = 2 powr real_of_int (ex + 1)"
      using top ux by (simp add: field_simps)
    finally have A: "double_round x \<le> 2 powr real_of_int (ex + 1)" by (simp only: dx)
    have "- 1022 < ey" using lt by (simp add: ex_def)
    then have eyl: "ey = \<lfloor>log 2 y\<rfloor>" using y by (simp add: ey_def max_def split: if_splits)
    have yb: "2 powr real_of_int ey \<le> y"
      unfolding eyl by (rule binade_bounds(1) [OF y])
    have "2 powr real_of_int ey / uy = 2 powr (real_of_int ey - real_of_int (ey - 52))"
      unfolding uy_def by (rule powr_diff [symmetric])
    also have "\<dots> = 2 powr 52" by simp
    also have "\<dots> = real_of_int (2 ^ 52)" by simp
    finally have bot: "2 powr real_of_int ey / uy = real_of_int (2 ^ 52)" .
    have "2 powr real_of_int ey / uy \<le> y / uy"
      using yb uy by (simp add: divide_right_mono)
    then have "real_of_int (2 ^ 52) \<le> y / uy" by (simp only: bot)
    then have "2 ^ 52 \<le> round_half_even (y / uy)" by (rule round_half_even_ge_int)
    then have "real_of_int (2 ^ 52) \<le> real_of_int (round_half_even (y / uy))"
      by (simp only: of_int_le_iff)
    then have "real_of_int (2 ^ 52) * uy \<le> real_of_int (round_half_even (y / uy)) * uy"
      using uy by (simp add: mult_right_mono)
    moreover have "real_of_int (2 ^ 52) * uy = 2 powr real_of_int ey"
      using bot uy by (simp add: field_simps)
    ultimately have B: "2 powr real_of_int ey \<le> double_round y" by (simp only: dy)
    have "2 powr real_of_int (ex + 1) \<le> 2 powr real_of_int ey"
      using lt by simp
    then show ?thesis using A B by linarith
  qed
qed

lemma double_round_binade:
  assumes "2 ^ n \<le> \<bar>x\<bar>" and "\<bar>x\<bar> < 2 ^ Suc n" and "n \<le> 52"
  shows "double_round x = real_of_int (round_half_even (x * 2 ^ (52 - n))) / 2 ^ (52 - n)"
proof -
  have pos: "0 < \<bar>x\<bar>"
    using assms(1) by (smt (verit) zero_less_power)
  then have nz: "x \<noteq> 0" by simp
  have "2 powr real_of_int (int n) \<le> \<bar>x\<bar>" "\<bar>x\<bar> < 2 powr real_of_int (int n + 1)"
    using assms(1,2) by (simp_all add: powr_realpow powr_add)
  then have "\<lfloor>log 2 \<bar>x\<bar>\<rfloor> = int n"
    using floor_log_eq_powr_iff [of "\<bar>x\<bar>" 2 "int n"] pos by simp
  then have e: "int n = max \<lfloor>log 2 \<bar>x\<bar>\<rfloor> (- 1022)" by simp
  have "int n \<le> 52 - int 0" using assms(3) by simp
  from ulp_inverse_power [OF this]
  have u: "1 / 2 ^ (52 - n) = 2 powr real_of_int (int n - 52)"
    using assms(3) by (simp add: nat_diff_distrib')
  from double_round_unfold [OF nz e u] show ?thesis by simp
qed

lemma double_round_low_binade:
  assumes "1 \<le> \<bar>x\<bar> * 2 ^ j" and "\<bar>x\<bar> * 2 ^ j < 2" and "j \<le> 1022"
  shows "double_round x = real_of_int (round_half_even (x * 2 ^ (52 + j))) / 2 ^ (52 + j)"
proof -
  have pos: "0 < \<bar>x\<bar>"
    using assms(1) by (cases "x = 0") simp_all
  then have nz: "x \<noteq> 0" by simp
  have p: "2 powr real_of_int (- int j) = 1 / 2 ^ j"
    by (simp add: powr_minus powr_realpow divide_inverse)
  have q: "2 powr real_of_int (- int j + 1) = 2 / 2 ^ j"
    using powr_add [of 2 "real_of_int (- int j)" 1] p by simp
  have "2 powr real_of_int (- int j) \<le> \<bar>x\<bar>" "\<bar>x\<bar> < 2 powr real_of_int (- int j + 1)"
    using assms(1,2) unfolding p q by (simp_all add: field_simps)
  then have "\<lfloor>log 2 \<bar>x\<bar>\<rfloor> = - int j"
    using floor_log_eq_powr_iff [of "\<bar>x\<bar>" 2 "- int j"] pos by simp
  then have e: "- int j = max \<lfloor>log 2 \<bar>x\<bar>\<rfloor> (- 1022)"
    using assms(3) by simp
  have "- int j \<le> 52 - int 0" by simp
  from ulp_inverse_power [OF this]
  have u: "1 / 2 ^ (52 + j) = 2 powr real_of_int (- int j - 52)"
    by (simp add: nat_add_distrib)
  from double_round_unfold [OF nz e u] show ?thesis by simp
qed

text \<open>The double nearest to 0.6 and the double nearest to 1/65535, times 65535.\<close>

lemma double_product_six_tenths:
  "double_round (5404319552844595 / 2 ^ 53 * 65535) = 39321"
proof -
  define x :: real where "x = 5404319552844595 / 2 ^ 53 * 65535"
  have "2 ^ 15 \<le> \<bar>x\<bar>" "\<bar>x\<bar> < 2 ^ Suc 15" by (simp_all add: x_def)
  from double_round_binade [OF this]
  have "double_round x = real_of_int (round_half_even (x * 2 ^ 37)) / 2 ^ 37" by simp
  moreover have "round_half_even (x * 2 ^ 37) = 39321 * 2 ^ 37"
    by (simp add: x_def round_half_even_def Let_def)
  ultimately show ?thesis by (simp add: x_def)
qed

lemma double_product_grid_step:
  "double_round (281479271743489 / 2 ^ 64 * 65535) = 1"
proof -
  define x :: real where "x = 281479271743489 / 2 ^ 64 * 65535"
  have "1 \<le> \<bar>x\<bar> * 2 ^ 1" "\<bar>x\<bar> * 2 ^ 1 < 2" by (simp_all add: x_def)
  from double_round_low_binade [OF this]
  have "double_round x = real_of_int (round_half_even (x * 2 ^ 53)) / 2 ^ 53" by simp
  moreover have "round_half_even (x * 2 ^ 53) = 2 ^ 53"
    by (simp add: x_def round_half_even_def Let_def)
  ultimately show ?thesis by (simp add: x_def)
qed

subsection \<open>The quantizer\<close>

lemma and_255_mod: "(i::int) AND 255 = i mod 256"
proof -
  have "i AND mask 8 = take_bit 8 i"
    by (simp only: take_bit_eq_mask)
  then show ?thesis
    by (simp add: take_bit_eq_mod mask_eq_exp_minus_1)
qed

lemma bytes_recombine: "(n::int) div 256 mod 256 * 256 + n mod 256 = n mod 65536"
proof -
  have "n mod (256 * 256) = 256 * (n div 256 mod 256) + n mod 256"
    by (rule zmod_zmult2_eq) simp
  then show ?thesis by simp
qed

lemma byte_range: "0 \<le> (k::int) mod 256 \<and> k mod 256 \<le> 255"
  by (simp add: zle_diff1_eq [symmetric])

lemma float_to_bytes_special:
  "float_to_bytes NaN = Inl ValueError"
  "float_to_bytes PosInf = Inl OverflowError"
  "float_to_bytes NegInf = Inl OverflowError"
  by (simp_all add: float_to_bytes_def float_times_def int_of_float_def)

lemma float_to_bytes_finite:
  assumes "\<bar>double_round (v * 65535)\<bar> < 2 ^ 1024"
  shows "float_to_bytes (Finite v)
       = Inr (py_int (double_round (v * 65535)) div 256 mod 256,
              py_int (double_round (v * 65535)) mod 256)"
proof -
  have "float_times (Finite v) 65535 = Finite (double_round (v * 65535))"
    using assms by (simp add: float_times_def Let_def abs_less_iff not_le)
  then show ?thesis
    by (simp add: float_to_bytes_def int_of_float_def Let_def and_255_mod drop_bit_eq_div)
qed

lemma float_to_bytes_overflow:
  assumes "2 ^ 1024 \<le> \<bar>double_round (v * 65535)\<bar>"
  shows "float_to_bytes (Finite v) = Inl OverflowError"
proof -
  have "float_times (Finite v) 65535 = PosInf \<or> float_times (Finite v) 65535 = NegInf"
    using assms by (auto simp: float_times_def Let_def abs_if split: if_splits)
  then show ?thesis
    by (auto simp: float_to_bytes_def int_of_float_def)
qed

lemma unit_int_value:
  assumes "0 \<le> v" and "v \<le> 1"
  shows "\<bar>double_round (v * 65535)\<bar> < 2 ^ 1024"
    and "0 \<le> py_int (double_round (v * 65535))"
    and "py_int (double_round (v * 65535)) \<le> 65535"
    and "\<bar>real_of_int (py_int (double_round (v * 65535))) - v * 65535\<bar> < 1"
proof -
  define x where "x = v * 65535"
  define r where "r = double_round x"
  have x0: "0 \<le> x" and x1: "x \<le> 65535" using assms by (simp_all add: x_def)
  then have small: "\<bar>x\<bar> < 2 ^ 53" by simp
  have lo: "real_of_int \<lfloor>x\<rfloor> \<le> r"
    unfolding r_def by (rule double_round_int_bounds(1) [OF small]) simp
  have hi: "r \<le> real_of_int \<lceil>x\<rceil>"
    unfolding r_def by (rule double_round_int_bounds(2) [OF small]) simp
  have r0: "0 \<le> r"
    unfolding r_def using double_round_int_bounds(1) [OF small, of 0] x0 by simp
  have r1: "r \<le> 65535"
    unfolding r_def using double_round_int_bounds(2) [OF small, of 65535] x1 by simp
  have "\<bar>r\<bar> \<le> 65535" using r0 r1 by simp
  also have "(65535::real) < 2 ^ 1024" by simp
  finally show "\<bar>double_round (v * 65535)\<bar> < 2 ^ 1024" by (simp add: r_def x_def)
  have pi: "py_int r = \<lfloor>r\<rfloor>" using r0 by (simp add: py_int_def)
  show "0 \<le> py_int (double_round (v * 65535))"
    using r0 by (simp add: pi r_def [symmetric] x_def [symmetric])
  have "\<lfloor>r\<rfloor> \<le> \<lfloor>65535::real\<rfloor>" using r1 by (rule floor_mono)
  then show "py_int (double_round (v * 65535)) \<le> 65535"
    by (simp add: pi r_def [symmetric] x_def [symmetric])
  have "\<lfloor>x\<rfloor> \<le> \<lfloor>r\<rfloor>" using lo by (simp add: le_floor_iff)
  then have a: "x - 1 < real_of_int \<lfloor>r\<rfloor>" by linarith
  have "real_of_int \<lfloor>r\<rfloor> \<le> r" by simp
  then have "real_of_int \<lfloor>r\<rfloor> \<le> real_of_int \<lceil>x\<rceil>" using hi by linarith
  then have b: "real_of_int \<lfloor>r\<rfloor> < x + 1" by linarith
  show "\<bar>real_of_int (py_int (double_round (v * 65535))) - v * 65535\<bar> < 1"
    using a b by (simp add: pi r_def [symmetric] x_def [symmetric] abs_less_iff)
qed

lemma unit_int_value_mono:
  assumes "0 \<le> w" and "w \<le> v"
  shows "py_int (double_round (w * 65535)) \<le> py_int (double_round (v * 65535))"
proof -
  have "0 \<le> w * 65535" "w * 65535 \<le> v * 65535" using assms by simp_all
  then have le: "double_round (w * 65535) \<le> double_round (v * 65535)"
    by (rule double_round_mono)
  have "0 \<le> double_round (w * 65535)"
    using double_round_mono [of 0 "w * 65535"] assms(1) by (simp add: double_round_def)
  then have "0 \<le> double_round (v * 65535)" using le by simp
  then show ?thesis
    using \<open>0 \<le> double_round (w * 65535)\<close> le by (simp add: py_int_def floor_mono)
qed

lemma float_to_bytes_unit:
  assumes "0 \<le> v" and "v \<le> 1"
  shows "\<exists>h l. float_to_bytes (Finite v) = Inr (h, l)
          \<and> h * 256 + l = py_int (double_round (v * 65535))
          \<and> 0 \<le> h \<and> h \<le> 255 \<and> 0 \<le> l \<and> l \<le> 255"
proof -
  define n where "n = py_int (double_round (v * 65535))"
  have f: "float_to_bytes (Finite v) = Inr (n div 256 mod 256, n mod 256)"
    unfolding n_def by (rule float_to_bytes_finite [OF unit_int_value(1) [OF assms]])
  have "n mod 65536 = n"
    using unit_int_value(2,3) [OF assms] by (simp add: n_def)
  then have "n div 256 mod 256 * 256 + n mod 256 = n"
    using bytes_recombine [of n] by simp
  moreover have "n = py_int (double_round (v * 65535))" by (rule n_def)
  ultimately show ?thesis
    using f byte_range [of n] byte_range [of "n div 256"] by auto
qed

lemma byte_planes_unit:
  assumes "list_all (\<lambda>v. 0 \<le> v \<and> v \<le> 1) vs"
  shows "\<exists>bytes. length bytes = length vs
      \<and> byte_planes (map Finite vs)
          = Inr (map (\<lambda>b. double_round (real_of_int (fst b) / 255)) bytes,
                 map (\<lambda>b. double_round (real_of_int (snd b) / 255)) bytes)
      \<and> (\<forall>i < length vs. float_to_bytes (Finite (vs ! i)) = Inr (bytes ! i))"
  using assms
proof (induction vs)
  case Nil
  then show ?case by simp
next
  case (Cons v vs)
  then have v: "0 \<le> v" "v \<le> 1" and rest: "list_all (\<lambda>v. 0 \<le> v \<and> v \<le> 1) vs"
    by simp_all
  from float_to_bytes_unit [OF v]
  obtain h l where hl: "float_to_bytes (Finite v) = Inr (h, l)" by blast
  from Cons.IH [OF rest]
  obtain bytes where b: "length bytes = length vs"
    "byte_planes (map Finite vs)
          = Inr (map (\<lambda>b. double_round (real_of_int (fst b) / 255)) bytes,
                 map (\<lambda>b. double_round (real_of_int (snd b) / 255)) bytes)"
    "\<forall>i < length vs. float_to_bytes (Finite (vs ! i)) = Inr (bytes ! i)"
    by blast
  have "\<forall>i < length (v # vs). float_to_bytes (Finite ((v # vs) ! i)) = Inr (((h, l) # bytes) ! i)"
  proof (intro allI impI)
    fix i assume "i < length (v # vs)"
    then show "float_to_bytes (Finite ((v # vs) ! i)) = Inr (((h, l) # bytes) ! i)"
      using hl b(3) by (cases i) simp_all
  qed
  moreover have "length ((h, l) # bytes) = length (v # vs)" using b(1) by simp
  moreover have "byte_planes (map Finite (v # vs))
          = Inr (map (\<lambda>b. double_round (real_of_int (fst b) / 255)) ((h, l) # bytes),
                 map (\<lambda>b. double_round (real_of_int (snd b) / 255)) ((h, l) # bytes))"
    using hl b(2) by simp
  ultimately show ?case by blast
qed

text \<open>
  The bytes of the double nearest to 0.6 and of the double nearest to 1/65535: the
  rounded products are 39321 and 1, where the exact products lie just below.
\<close>

lemma float_to_bytes_six_tenths:
  "float_to_bytes (Finite (5404319552844595 / 2 ^ 53)) = Inr (153, 153)"
proof -
  have "\<bar>double_round (5404319552844595 / 2 ^ 53 * 65535)\<bar> < 2 ^ 1024"
    by (simp only: double_product_six_tenths) simp
  from float_to_bytes_finite [OF this] show ?thesis
    by (simp only: double_product_six_tenths) (simp add: py_int_def)
qed

lemma float_to_bytes_grid_step:
  "float_to_bytes (Finite (281479271743489 / 2 ^ 64)) = Inr (0, 1)"
proof -
  have "\<bar>double_round (281479271743489 / 2 ^ 64 * 65535)\<bar> < 2 ^ 1024"
    by (simp only: double_product_grid_step) simp
  from float_to_bytes_finite [OF this] show ?thesis
    by (simp only: double_product_grid_step) (simp add: py_int_def)
qed

lemma float_to_bytes_half: "float_to_bytes (Finite (1 / 2)) = Inr (127, 255)"
proof -
  have r: "double_round (1 / 2 * 65535) = 65535 / 2"
    using double_round_exact [of "65535 / 2" 65535 1] by simp
  have "\<bar>double_round (1 / 2 * 65535)\<bar> < 2 ^ 1024"
    by (simp only: r) simp
  from float_to_bytes_finite [OF this] show ?thesis
    by (simp only: r) (simp add: py_int_def)
qed

lemma float_to_bytes_one: "float_to_bytes (Finite 1) = Inr (255, 255)"
proof -
  have r: "double_round (1 * 65535) = 65535"
    using double_round_exact [of 65535 65535 0] by simp
  have "\<bar>double_round (1 * 65535)\<bar> < 2 ^ 1024"
    by (simp only: r) simp
  from float_to_bytes_finite [OF this] show ?thesis
    by (simp only: r) (simp add: py_int_def)
qed

lemma float_to_bytes_three_halves: "float_to_bytes (Finite (3 / 2)) = Inr (127, 254)"
proof -
  have r: "double_round (3 / 2 * 65535) = 196605 / 2"
    using double_round_exact [of "196605 / 2" 196605 1] by simp
  have "\<bar>double_round (3 / 2 * 65535)\<bar> < 2 ^ 1024"
    by (simp only: r) simp
  from float_to_bytes_finite [OF this] show ?thesis
    by (simp only: r) (simp add: py_int_def)
qed

text \<open>
  C1. For every plane of values in \<open>[0,1]\<close> the quantizer returns two planes of the
  same length, and for every value \<open>v\<close> of the plane, with \<open>(highByte, lowByte)\<close> the
  bytes produced for \<open>v\<close>: \<open>(highByte*256 + lowByte) / 65535\<close> differs from \<open>v\<close> by at
  most \<open>1/65535\<close>, both bytes lie in \<open>0..255\<close>, and the values emitted into the two
  planes at the place of \<open>v\<close> are the doubles \<open>highByte / 255.0\<close> and \<open>lowByte / 255.0\<close>.
\<close>

theorem quantizer_round_trip:
  assumes "list_all (\<lambda>v. 0 \<le> v \<and> v \<le> 1) vs"
  shows "\<exists>bytes. length bytes = length vs
      \<and> byte_planes (map Finite vs)
          = Inr (map (\<lambda>b. double_round (real_of_int (fst b) / 255)) bytes,
                 map (\<lambda>b. double_round (real_of_int (snd b) / 255)) bytes)
      \<and> (\<forall>i < length vs.
            float_to_bytes (Finite (vs ! i)) = Inr (bytes ! i)
            \<and> \<bar>real_of_int (fst (bytes ! i) * 256 + snd (bytes ! i)) / 65535 - vs ! i\<bar>
                \<le> 1 / 65535
            \<and> 0 \<le> fst (bytes ! i) \<and> fst (bytes ! i) \<le> 255
            \<and> 0 \<le> snd (bytes ! i) \<and> snd (bytes ! i) \<le> 255)"
proof -
  from byte_planes_unit [OF assms]
  obtain bytes where b: "length bytes = length vs"
    "byte_planes (map Finite vs)
          = Inr (map (\<lambda>b. double_round (real_of_int (fst b) / 255)) bytes,
                 map (\<lambda>b. double_round (real_of_int (snd b) / 255)) bytes)"
    "\<forall>i < length vs. float_to_bytes (Finite (vs ! i)) = Inr (bytes ! i)"
    by blast
  have "float_to_bytes (Finite (vs ! i)) = Inr (bytes ! i)
            \<and> \<bar>real_of_int (fst (bytes ! i) * 256 + snd (bytes ! i)) / 65535 - vs ! i\<bar>
                \<le> 1 / 65535
            \<and> 0 \<le> fst (bytes ! i) \<and> fst (bytes ! i) \<le> 255
            \<and> 0 \<le> snd (bytes ! i) \<and> snd (bytes ! i) \<le> 255"
    if i: "i < length vs" for i
  proof -
    have v: "0 \<le> vs ! i" "vs ! i \<le> 1"
      using assms i by (simp_all add: list_all_length)
    have at: "float_to_bytes (Finite (vs ! i)) = Inr (bytes ! i)"
      using b(3) i by blast
    from float_to_bytes_unit [OF v] at
    have sum: "fst (bytes ! i) * 256 + snd (bytes ! i) = py_int (double_round (vs ! i * 65535))"
      and rng: "0 \<le> fst (bytes ! i)" "fst (bytes ! i) \<le> 255"
        "0 \<le> snd (bytes ! i)" "snd (bytes ! i) \<le> 255"
      by auto
    have "\<bar>real_of_int (py_int (double_round (vs ! i * 65535))) - vs ! i * 65535\<bar> < 1"
      by (rule unit_int_value(4) [OF v])
    then have "\<bar>real_of_int (py_int (double_round (vs ! i * 65535))) / 65535 - vs ! i\<bar>
        \<le> 1 / 65535"
      by (simp add: abs_le_iff abs_less_iff field_simps)
    then have "\<bar>real_of_int (fst (bytes ! i) * 256 + snd (bytes ! i)) / 65535 - vs ! i\<bar>
        \<le> 1 / 65535"
      by (simp only: sum)
    then show ?thesis using at rng by blast
  qed
  then show ?thesis using b(1,2) by blast
qed

theorem quantizer_round_trip_witness:
  "list_all (\<lambda>v. 0 \<le> v \<and> v \<le> 1) [1 / 2, 1 :: real]
   \<and> float_to_bytes (Finite (1 / 2)) = Inr (127, 255)
   \<and> float_to_bytes (Finite 1) = Inr (255, 255)
   \<and> \<bar>real_of_int (127 * 256 + 255) / 65535 - 1 / 2\<bar> \<le> 1 / 65535
   \<and> byte_planes [Finite (1 / 2), Finite 1]
       = Inr ([double_round (127 / 255), double_round (255 / 255)],
              [double_round (255 / 255), double_round (255 / 255)])"
proof -
  have h: "list_all (\<lambda>v. 0 \<le> v \<and> v \<le> 1) [1 / 2, 1 :: real]" by simp
  from quantizer_round_trip [OF h]
  obtain bytes where l: "length bytes = length [1 / 2, 1 :: real]"
    and p: "byte_planes (map Finite [1 / 2, 1])
          = Inr (map (\<lambda>b. double_round (real_of_int (fst b) / 255)) bytes,
                 map (\<lambda>b. double_round (real_of_int (snd b) / 255)) bytes)"
    and e: "\<forall>i < length [1 / 2, 1 :: real].
            float_to_bytes (Finite ([1 / 2, 1] ! i)) = Inr (bytes ! i)
            \<and> \<bar>real_of_int (fst (bytes ! i) * 256 + snd (bytes ! i)) / 65535 - [1 / 2, 1] ! i\<bar>
                \<le> 1 / 65535
            \<and> 0 \<le> fst (bytes ! i) \<and> fst (bytes ! i) \<le> 255
            \<and> 0 \<le> snd (bytes ! i) \<and> snd (bytes ! i) \<le> 255"
    by blast
  obtain b0 b1 where bs: "bytes = [b0, b1]"
    using l by (cases bytes; cases "tl bytes") auto
  have i0: "0 < length [1 / 2, 1 :: real]" and i1: "1 < length [1 / 2, 1 :: real]"
    by simp_all
  from e i0 have e0: "float_to_bytes (Finite ([1 / 2, 1 :: real] ! 0)) = Inr (bytes ! 0)"
    and r0: "\<bar>real_of_int (fst (bytes ! 0) * 256 + snd (bytes ! 0)) / 65535
               - [1 / 2, 1] ! 0\<bar> \<le> 1 / 65535"
    by blast+
  from e i1 have e1: "float_to_bytes (Finite ([1 / 2, 1 :: real] ! 1)) = Inr (bytes ! 1)"
    by blast
  have b0: "b0 = (127, 255)" using e0 by (simp add: bs float_to_bytes_half)
  have b1: "b1 = (255, 255)" using e1 by (simp add: bs float_to_bytes_one)
  have "\<bar>real_of_int (127 * 256 + 255) / 65535 - 1 / 2\<bar> \<le> 1 / 65535"
    using r0 by (simp add: bs b0)
  moreover have "byte_planes [Finite (1 / 2), Finite 1]
       = Inr ([double_round (127 / 255), double_round (255 / 255)],
              [double_round (255 / 255), double_round (255 / 255)])"
    using p by (simp add: bs b0 b1)
  ultimately show ?thesis
    using h float_to_bytes_half float_to_bytes_one by blast
qed

text \<open>
  C9 as stated (the integer is clamped to \<open>[0, 65535]\<close> before it is split, so the
  bytes saturate monotonically, for every input) does not hold: \<open>float_to_bytes\<close> has
  no clamp. At \<open>v = 3/2\<close> the integer is 98302, the bytes are those of
  \<open>98302 mod 65536 = 32766\<close> rather than of 65535, and the 16 bit value is smaller than
  the one for \<open>v = 1\<close>; a NaN gives no bytes at all.
\<close>

theorem quantizer_clamp_counterexample:
  "float_to_bytes (Finite (3 / 2)) = Inr (127, 254)
   \<and> (127::int) * 256 + 254 \<noteq> max 0 (min 65535 \<lfloor>(3 / 2 :: real) * 65535\<rfloor>)
   \<and> float_to_bytes (Finite 1) = Inr (255, 255)
   \<and> (1::real) < 3 / 2 \<and> (127::int) * 256 + 254 < 255 * 256 + 255
   \<and> float_to_bytes NaN = Inl ValueError"
  by (simp add: float_to_bytes_three_halves float_to_bytes_one float_to_bytes_special)

text \<open>
  C9, amended. The quantizer does not clamp. A NaN raises \<open>ValueError\<close>; an infinity,
  or a finite input whose product with 65535 overflows, raises \<open>OverflowError\<close>. For
  every other input \<open>v\<close> it splits \<open>int(v * 65535)\<close>, the double product truncated
  towards zero, into two bytes in \<open>0..255\<close> with
  \<open>highByte*256 + lowByte = int(v * 65535) mod 65536\<close>. For \<open>v\<close> in \<open>[0,1]\<close> the integer
  lies in \<open>[0, 65535]\<close> without any clamp, is less than 1 away from \<open>v * 65535\<close>, equals
  \<open>highByte*256 + lowByte\<close>, and is monotone in \<open>v\<close>.
\<close>

theorem quantizer_wraps:
  "float_to_bytes NaN = Inl ValueError
   \<and> float_to_bytes PosInf = Inl OverflowError
   \<and> float_to_bytes NegInf = Inl OverflowError
   \<and> (2 ^ 1024 \<le> \<bar>double_round (v * 65535)\<bar>
        \<longrightarrow> float_to_bytes (Finite v) = Inl OverflowError)
   \<and> (\<bar>double_round (v * 65535)\<bar> < 2 ^ 1024
        \<longrightarrow> (\<exists>h l. float_to_bytes (Finite v) = Inr (h, l)
               \<and> h * 256 + l = py_int (double_round (v * 65535)) mod 65536
               \<and> 0 \<le> h \<and> h \<le> 255 \<and> 0 \<le> l \<and> l \<le> 255))
   \<and> (0 \<le> v \<and> v \<le> 1
        \<longrightarrow> (\<exists>h l. float_to_bytes (Finite v) = Inr (h, l)
               \<and> h * 256 + l = py_int (double_round (v * 65535))
               \<and> 0 \<le> h * 256 + l \<and> h * 256 + l \<le> 65535
               \<and> \<bar>real_of_int (h * 256 + l) - v * 65535\<bar> < 1
               \<and> (\<forall>w. 0 \<le> w \<and> w \<le> v
                     \<longrightarrow> py_int (double_round (w * 65535)) \<le> h * 256 + l)))"
proof -
  have fin: "\<exists>h l. float_to_bytes (Finite v) = Inr (h, l)
               \<and> h * 256 + l = py_int (double_round (v * 65535)) mod 65536
               \<and> 0 \<le> h \<and> h \<le> 255 \<and> 0 \<le> l \<and> l \<le> 255"
    if "\<bar>double_round (v * 65535)\<bar> < 2 ^ 1024"
  proof -
    define n where "n = py_int (double_round (v * 65535))"
    have "float_to_bytes (Finite v) = Inr (n div 256 mod 256, n mod 256)"
      unfolding n_def by (rule float_to_bytes_finite [OF that])
    then show ?thesis
      using bytes_recombine [of n] byte_range [of n] byte_range [of "n div 256"]
      by (simp add: n_def)
  qed
  have unit: "\<exists>h l. float_to_bytes (Finite v) = Inr (h, l)
               \<and> h * 256 + l = py_int (double_round (v * 65535))
               \<and> 0 \<le> h * 256 + l \<and> h * 256 + l \<le> 65535
               \<and> \<bar>real_of_int (h * 256 + l) - v * 65535\<bar> < 1
               \<and> (\<forall>w. 0 \<le> w \<and> w \<le> v
                     \<longrightarrow> py_int (double_round (w * 65535)) \<le> h * 256 + l)"
    if v: "0 \<le> v \<and> v \<le> 1"
  proof -
    from v have v': "0 \<le> v" "v \<le> 1" by simp_all
    from float_to_bytes_unit [OF v']
    obtain h l where hl: "float_to_bytes (Finite v) = Inr (h, l)"
      and s: "h * 256 + l = py_int (double_round (v * 65535))"
      by blast
    have "\<forall>w. 0 \<le> w \<and> w \<le> v \<longrightarrow> py_int (double_round (w * 65535)) \<le> h * 256 + l"
      using unit_int_value_mono by (simp add: s)
    then show ?thesis
      using hl s unit_int_value(2,3,4) [OF v'] by auto
  qed
  show ?thesis
    using float_to_bytes_special float_to_bytes_overflow [of v] fin unit by blast
qed

theorem quantizer_wraps_witness:
  "\<bar>double_round (3 / 2 * 65535)\<bar> < 2 ^ 1024
   \<and> float_to_bytes (Finite (3 / 2)) = Inr (127, 254)
   \<and> (127::int) * 256 + 254 = py_int (double_round (3 / 2 * 65535)) mod 65536
   \<and> (0::real) \<le> 1 / 2 \<and> (1::real) / 2 \<le> 1
   \<and> float_to_bytes (Finite (1 / 2)) = Inr (127, 255)
   \<and> py_int (double_round (1 / 4 * 65535)) \<le> 127 * 256 + 255"
proof -
  have r: "double_round (3 / 2 * 65535) = 196605 / 2"
    using double_round_exact [of "196605 / 2" 196605 1] by simp
  have a: "\<bar>double_round (3 / 2 * 65535)\<bar> < 2 ^ 1024"
    by (simp only: r) simp
  from quantizer_wraps [of "3 / 2"] a
  obtain h l where "float_to_bytes (Finite (3 / 2)) = Inr (h, l)"
    and "h * 256 + l = py_int (double_round (3 / 2 * 65535)) mod 65536"
    by blast
  then have one: "(127::int) * 256 + 254 = py_int (double_round (3 / 2 * 65535)) mod 65536"
    by (simp add: float_to_bytes_three_halves)
  have u: "(0::real) \<le> 1 / 2 \<and> (1::real) / 2 \<le> 1" by simp
  from quantizer_wraps [of "1 / 2"] u
  obtain h' l' where "float_to_bytes (Finite (1 / 2)) = Inr (h', l')"
    and "\<forall>w. 0 \<le> w \<and> w \<le> 1 / 2 \<longrightarrow> py_int (double_round (w * 65535)) \<le> h' * 256 + l'"
    by blast
  then have "\<forall>w. 0 \<le> w \<and> w \<le> 1 / 2
      \<longrightarrow> py_int (double_round (w * 65535)) \<le> (127::int) * 256 + 255"
    by (simp add: float_to_bytes_half)
  moreover have "(0::real) \<le> 1 / 4 \<and> (1::real) / 4 \<le> 1 / 2" by simp
  ultimately have two: "py_int (double_round (1 / 4 * 65535)) \<le> 127 * 256 + 255"
    by blast
  show ?thesis
    using a one two u float_to_bytes_three_halves float_to_bytes_half by blast
qed

subsection \<open>The UV layout\<close>

lemma loop_uv_wide:
  assumes "2 \<le> w" and "w = (if idx div ts < chunks then ts else rem)"
  shows "loop_uv ts chunks rem idx =
           Inr (real (idx div ts)
                + (1 - 3 / real w) * (real (idx mod ts) / (real w - 1)) + (3 / 2) / real w,
                128 / 255)"
proof -
  have "int w - 1 \<noteq> 0" "w \<noteq> 0" using assms(1) by simp_all
  moreover have "real_of_int (int w - 1) = real w - 1" by simp
  ultimately show ?thesis
    using assms(2) by (simp add: loop_uv_def Let_def)
qed

lemma loop_uv_width_one:
  assumes "(if idx div ts < chunks then ts else rem) = 1"
  shows "loop_uv ts chunks rem idx = Inl ZeroDivisionError"
  using assms by (simp add: loop_uv_def Let_def)

lemma loop_uv_only_zero_division:
  "loop_uv ts chunks rem idx = Inl e \<Longrightarrow> e = ZeroDivisionError"
  by (simp add: loop_uv_def Let_def split: if_splits)

lemma assign_uvs_raises:
  assumes "idx \<in> set loops" and "loop_uv ts chunks rem idx = Inl ZeroDivisionError"
  shows "assign_uvs ts chunks rem loops = Inl ZeroDivisionError"
  using assms
proof (induction loops)
  case Nil
  then show ?case by simp
next
  case (Cons a loops)
  show ?case
  proof (cases "loop_uv ts chunks rem a")
    case (Inl e)
    then show ?thesis using loop_uv_only_zero_division [OF Inl] by simp
  next
    case (Inr uv)
    then have "idx \<in> set loops" using Cons.prems by auto
    then have "assign_uvs ts chunks rem loops = Inl ZeroDivisionError"
      using Cons.IH Cons.prems(2) by simp
    then show ?thesis using Inr by simp
  qed
qed

lemma assign_uvs_succeeds:
  assumes "list_all (\<lambda>idx. \<exists>uv. loop_uv ts chunks rem idx = Inr uv) loops"
  shows "\<exists>uvs. assign_uvs ts chunks rem loops = Inr uvs \<and> length uvs = length loops"
  using assms
proof (induction loops)
  case Nil
  then show ?case by simp
next
  case (Cons a loops)
  then obtain uv uvs where "loop_uv ts chunks rem a = Inr uv"
    and "assign_uvs ts chunks rem loops = Inr uvs" and "length uvs = length loops"
    by auto
  then show ?case by simp
qed

lemma full_chunk_index:
  fixes n ts idx :: nat
  assumes "0 < ts" and "n mod ts = 0" and "idx < n"
  shows "idx div ts < n div ts"
proof -
  have "ts dvd n" using assms(2) by (simp add: dvd_eq_mod_eq_0)
  then have "n div ts * ts = n" by simp
  then have "idx < n div ts * ts" using assms(3) by simp
  then show ?thesis using assms(1) by (simp add: div_less_iff_less_mult)
qed

lemma index_in_chunk_bound:
  fixes n ts j :: nat
  assumes "0 < ts" and "j < n"
  shows "j mod ts < (if j div ts < n div ts then ts else n mod ts)"
proof (cases "j div ts < n div ts")
  case True
  then show ?thesis using assms(1) by simp
next
  case False
  have "j div ts \<le> n div ts" using assms(2) by (simp add: div_le_mono)
  then have q: "j div ts = n div ts" using False by simp
  have "j div ts * ts + j mod ts < n div ts * ts + n mod ts"
    using assms(2) by simp
  then have "j mod ts < n mod ts" by (simp only: q nat_add_left_cancel_less)
  then show ?thesis using False by simp
qed

lemma same_chunk_mod_less:
  fixes i j ts :: nat
  assumes "i < j" and "i div ts = j div ts"
  shows "i mod ts < j mod ts"
proof -
  have "i div ts * ts + i mod ts < j div ts * ts + j mod ts"
    using assms(1) by simp
  then show ?thesis by (simp only: assms(2) nat_add_left_cancel_less)
qed


lemma uv_value_bounds:
  fixes w k :: nat and c :: real
  assumes "4 \<le> w" and "k < w"
  defines "u \<equiv> c + (1 - 3 / real w) * (real k / (real w - 1)) + (3 / 2) / real w"
  shows "c < u" and "u < c + 1"
proof -
  define A where "A = (1 - 3 / real w) * (real k / (real w - 1))"
  define P where "P = (3 / 2) / real w"
  have u: "u = c + A + P" by (simp add: u_def A_def P_def)
  have w: "0 < real w" "0 < real w - 1" using assms(1) by simp_all
  have a: "0 < 1 - 3 / real w" using assms(1) by (simp add: field_simps)
  have t0: "0 \<le> real k / (real w - 1)" using w by simp
  have "real k \<le> real w - 1" using assms(2) by linarith
  then have t1: "real k / (real w - 1) \<le> 1" using w by (simp add: field_simps)
  have p: "0 < P" using w by (simp add: P_def)
  have A0: "0 \<le> A"
    unfolding A_def using a t0 by (intro mult_nonneg_nonneg) simp_all
  have "A \<le> (1 - 3 / real w) * 1"
    unfolding A_def using a t1 by (intro mult_left_mono) simp_all
  then have A1: "A \<le> 1 - 2 * P" by (simp add: P_def)
  show "c < u" using p A0 u by linarith
  show "u < c + 1" using p A1 u by linarith
qed

lemma uv_value_mono:
  fixes w k k' :: nat and c :: real
  assumes "4 \<le> w" and "k < k'"
  shows "c + (1 - 3 / real w) * (real k / (real w - 1)) + (3 / 2) / real w
       < c + (1 - 3 / real w) * (real k' / (real w - 1)) + (3 / 2) / real w"
proof -
  have w: "0 < real w - 1" using assms(1) by simp
  have a: "0 < 1 - 3 / real w" using assms(1) by (simp add: field_simps)
  have "real k / (real w - 1) < real k' / (real w - 1)"
    using w assms(2) by (simp add: divide_strict_right_mono)
  then have "(1 - 3 / real w) * (real k / (real w - 1))
           < (1 - 3 / real w) * (real k' / (real w - 1))"
    using a by (simp only: mult_less_cancel_left_pos)
  then show ?thesis by simp
qed

text \<open>
  C4, amended. The UV of a loop is a function of the texture size, the vertex count and
  the vertex index alone, and \<open>v\<close> is always \<open>128/255\<close>. For two indices \<open>i < j\<close>
  of the same chunk, when that chunk's pixel width is at least 4 (every full chunk of
  width 128 is), both UVs exist, \<open>u\<close> is strictly smaller at \<open>i\<close> than at \<open>j\<close>, and
  both lie strictly between the chunk number and the chunk number plus one. Moving from
  an index of a full chunk to the same position in the next full chunk adds exactly 1
  to \<open>u\<close>. Nothing is said about a last chunk of width 1, 2 or 3.
\<close>

theorem uv_increasing:
  "(i < j \<and> i div ts = j div ts \<and> j < n \<and> 0 < ts
      \<and> 4 \<le> (if j div ts < n div ts then ts else n mod ts)
    \<longrightarrow> (\<exists>ui uj. export_mesh_uvs ts n [i, j] = Inr [(ui, 128 / 255), (uj, 128 / 255)]
                 \<and> real (j div ts) < ui \<and> ui < uj \<and> uj < real (j div ts) + 1))
   \<and> (1 < ts \<and> i div ts + 1 < n div ts
    \<longrightarrow> (\<exists>u. export_mesh_uvs ts n [i, i + ts] = Inr [(u, 128 / 255), (u + 1, 128 / 255)]))"
proof (intro conjI impI)
  assume h: "i < j \<and> i div ts = j div ts \<and> j < n \<and> 0 < ts
      \<and> 4 \<le> (if j div ts < n div ts then ts else n mod ts)"
  define w where "w = (if j div ts < n div ts then ts else n mod ts)"
  define ui where "ui = real (j div ts)
    + (1 - 3 / real w) * (real (i mod ts) / (real w - 1)) + (3 / 2) / real w"
  define uj where "uj = real (j div ts)
    + (1 - 3 / real w) * (real (j mod ts) / (real w - 1)) + (3 / 2) / real w"
  have w4: "4 \<le> w" using h by (simp add: w_def)
  then have w2: "2 \<le> w" by simp
  have wi: "w = (if i div ts < n div ts then ts else n mod ts)"
    using h by (simp add: w_def)
  have li: "loop_uv ts (n div ts) (n mod ts) i = Inr (ui, 128 / 255)"
    using loop_uv_wide [OF w2 wi] h by (simp add: ui_def)
  have lj: "loop_uv ts (n div ts) (n mod ts) j = Inr (uj, 128 / 255)"
    using loop_uv_wide [OF w2 w_def] by (simp add: uj_def)
  have res: "export_mesh_uvs ts n [i, j] = Inr [(ui, 128 / 255), (uj, 128 / 255)]"
    using h li lj by (simp add: export_mesh_uvs_def Let_def)
  have kk: "i mod ts < j mod ts"
    using same_chunk_mod_less h by blast
  have kw: "j mod ts < w"
    using index_in_chunk_bound [of ts j n] h by (simp add: w_def)
  then have kiw: "i mod ts < w" using kk by simp
  have "real (j div ts) < ui"
    unfolding ui_def by (rule uv_value_bounds(1) [OF w4 kiw])
  moreover have "ui < uj"
    unfolding ui_def uj_def by (rule uv_value_mono [OF w4 kk])
  moreover have "uj < real (j div ts) + 1"
    unfolding uj_def by (rule uv_value_bounds(2) [OF w4 kw])
  ultimately show "\<exists>ui uj. export_mesh_uvs ts n [i, j] = Inr [(ui, 128 / 255), (uj, 128 / 255)]
                 \<and> real (j div ts) < ui \<and> ui < uj \<and> uj < real (j div ts) + 1"
    using res by blast
next
  assume h: "1 < ts \<and> i div ts + 1 < n div ts"
  then have ts2: "2 \<le> ts" by simp
  have d: "(i + ts) div ts = i div ts + 1" "(i + ts) mod ts = i mod ts"
    using h by simp_all
  have wi: "ts = (if i div ts < n div ts then ts else n mod ts)"
    using h by simp
  have wj: "ts = (if (i + ts) div ts < n div ts then ts else n mod ts)"
    using h by (simp add: d)
  define u where "u = real (i div ts)
    + (1 - 3 / real ts) * (real (i mod ts) / (real ts - 1)) + (3 / 2) / real ts"
  have li: "loop_uv ts (n div ts) (n mod ts) i = Inr (u, 128 / 255)"
    using loop_uv_wide [OF ts2 wi] by (simp add: u_def)
  have lj: "loop_uv ts (n div ts) (n mod ts) (i + ts) = Inr (u + 1, 128 / 255)"
    using loop_uv_wide [OF ts2 wj] by (simp add: u_def d)
  have "export_mesh_uvs ts n [i, i + ts] = Inr [(u, 128 / 255), (u + 1, 128 / 255)]"
    using h li lj by (simp add: export_mesh_uvs_def Let_def)
  then show "\<exists>u. export_mesh_uvs ts n [i, i + ts] = Inr [(u, 128 / 255), (u + 1, 128 / 255)]"
    by blast
qed

theorem uv_increasing_witness:
  "(\<exists>ui uj. create_export_mesh_object 300 [0, 1] = Inr [(ui, 128 / 255), (uj, 128 / 255)]
           \<and> 0 < ui \<and> ui < uj \<and> uj < 1)
   \<and> (\<exists>u. create_export_mesh_object 300 [5, 133] = Inr [(u, 128 / 255), (u + 1, 128 / 255)])"
proof -
  have a: "(0::nat) < 1 \<and> (0::nat) div 128 = 1 div 128 \<and> (1::nat) < 300 \<and> (0::nat) < 128
      \<and> 4 \<le> (if (1::nat) div 128 < 300 div 128 then 128 else 300 mod (128::nat))"
    by simp
  have b: "(1::nat) < 128 \<and> (5::nat) div 128 + 1 < 300 div 128" by simp
  have "\<exists>ui uj. export_mesh_uvs 128 300 [0, 1] = Inr [(ui, 128 / 255), (uj, 128 / 255)]
                 \<and> real (1 div 128) < ui \<and> ui < uj \<and> uj < real (1 div 128) + 1"
    using uv_increasing [of 0 1 128 300] a by blast
  moreover have "\<exists>u. export_mesh_uvs 128 300 [5, 5 + 128] = Inr [(u, 128 / 255), (u + 1, 128 / 255)]"
    using uv_increasing [of 5 _ 128 300] b by blast
  ultimately show ?thesis
    by (simp add: create_export_mesh_object_def chunk_width_def)
qed

text \<open>
  C4 as stated (within every chunk \<open>u\<close> strictly increases with the index in the chunk)
  fails in a last chunk of width 2: with 130 vertices, the indices 128 and 129 share
  chunk 1, and \<open>u\<close> falls from \<open>7/4\<close> to \<open>5/4\<close>.
\<close>

theorem uv_increasing_counterexample:
  "create_export_mesh_object 130 [128, 129] = Inr [(7 / 4, 128 / 255), (5 / 4, 128 / 255)]
   \<and> (128::nat) div chunk_width = 129 div chunk_width
   \<and> (128::nat) mod chunk_width < 129 mod chunk_width
   \<and> \<not> ((7::real) / 4 < 5 / 4)"
  by (simp add: create_export_mesh_object_def export_mesh_uvs_def chunk_width_def
      loop_uv_def Let_def)

text \<open>
  C10. When the vertex count \<open>n\<close> is a positive multiple of the texture size (which is
  more than 1, as 128 is), every vertex index below \<open>n\<close> has
  \<open>chunk_number < chunks\<close>, so its UV is computed with \<open>current_pixel_width\<close> equal to
  the texture size; the remainder branch is not taken, the two divisors (the texture
  size and the texture size minus one) are not zero, and the UV assignment of any list
  of loops over valid indices returns one UV per loop.
\<close>

theorem full_chunks_only:
  assumes "1 < ts" and "0 < n" and "n mod ts = 0"
  shows "(\<forall>idx < n. idx div ts < n div ts
            \<and> loop_uv ts (n div ts) (n mod ts) idx
                = Inr (real (idx div ts)
                       + (1 - 2 * ((3 / 2) / real ts)) * (real (idx mod ts) / (real ts - 1))
                       + (3 / 2) / real ts, 128 / 255))
       \<and> real ts \<noteq> 0 \<and> real ts - 1 \<noteq> 0
       \<and> (list_all (\<lambda>idx. idx < n) loops
            \<longrightarrow> (\<exists>uvs. export_mesh_uvs ts n loops = Inr uvs \<and> length uvs = length loops))"
proof -
  have ts2: "2 \<le> ts" and ts0: "0 < ts" using assms(1) by simp_all
  have one: "idx div ts < n div ts
            \<and> loop_uv ts (n div ts) (n mod ts) idx
                = Inr (real (idx div ts)
                       + (1 - 2 * ((3 / 2) / real ts)) * (real (idx mod ts) / (real ts - 1))
                       + (3 / 2) / real ts, 128 / 255)"
    if "idx < n" for idx
  proof -
    have lt: "idx div ts < n div ts"
      by (rule full_chunk_index [OF ts0 assms(3) that])
    then have "ts = (if idx div ts < n div ts then ts else n mod ts)" by simp
    from loop_uv_wide [OF ts2 this] lt show ?thesis by simp
  qed
  have all: "\<exists>uvs. export_mesh_uvs ts n loops = Inr uvs \<and> length uvs = length loops"
    if "list_all (\<lambda>idx. idx < n) loops"
  proof -
    have "list_all (\<lambda>idx. \<exists>uv. loop_uv ts (n div ts) (n mod ts) idx = Inr uv) loops"
      unfolding list_all_iff using that [unfolded list_all_iff] one by blast
    from assign_uvs_succeeds [OF this] show ?thesis
      using ts0 by (simp add: export_mesh_uvs_def Let_def)
  qed
  show ?thesis using one all assms(1) by simp
qed

theorem full_chunks_only_witness:
  "(1::nat) < chunk_width \<and> (0::nat) < 256 \<and> (256::nat) mod chunk_width = 0
   \<and> (255::nat) div chunk_width < 256 div chunk_width
   \<and> (\<exists>uvs. create_export_mesh_object 256 [0, 127, 128, 255] = Inr uvs \<and> length uvs = 4)"
proof -
  have h: "(1::nat) < 128" "(0::nat) < 256" "(256::nat) mod 128 = 0" by simp_all
  have l: "list_all (\<lambda>idx. idx < (256::nat)) [0, 127, 128, 255]" by simp
  from full_chunks_only [OF h, of "[0, 127, 128, 255]"] l
  obtain uvs where u: "export_mesh_uvs 128 256 [0, 127, 128, 255] = Inr uvs"
    and "length uvs = length [0::nat, 127, 128, 255]"
    by blast
  then have "length uvs = 4" by simp
  then show ?thesis
    using u by (simp add: create_export_mesh_object_def chunk_width_def)
qed

text \<open>
  C2 (a chunk of pixel width 1 raises no division error and gives
  \<open>u = chunk_number + 0.5\<close>) is not what the code does: whenever some loop's vertex
  lies in a chunk with \<open>current_pixel_width = 1\<close>, the division by
  \<open>current_pixel_width - 1\<close> raises \<open>ZeroDivisionError\<close> and no UV is produced. With
  129 vertices this happens at vertex index 128.
\<close>

theorem single_column_chunk_raises:
  assumes "0 < ts" and "idx \<in> set loops"
    and "(if idx div ts < n div ts then ts else n mod ts) = 1"
  shows "export_mesh_uvs ts n loops = Inl ZeroDivisionError"
proof -
  have "loop_uv ts (n div ts) (n mod ts) idx = Inl ZeroDivisionError"
    by (rule loop_uv_width_one [OF assms(3)])
  from assign_uvs_raises [OF assms(2) this] show ?thesis
    using assms(1) by (simp add: export_mesh_uvs_def Let_def)
qed

theorem single_column_chunk_raises_witness:
  "create_export_mesh_object 129 [0, 128] = Inl ZeroDivisionError"
proof -
  have "(0::nat) < 128" and "(128::nat) \<in> set [0, 128]"
    and "(if (128::nat) div 128 < 129 div 128 then 128 else 129 mod 128) = (1::nat)"
    by simp_all
  from single_column_chunk_raises [OF this] show ?thesis
    by (simp add: create_export_mesh_object_def chunk_width_def)
qed

subsection \<open>Offsets and normals\<close>

lemma concat_equal_rows:
  assumes "list_all (\<lambda>xs. length xs = k) xss" and "r < length xss"
  shows "take k (drop (r * k) (concat xss)) = xss ! r"
  using assms
proof (induction xss arbitrary: r)
  case Nil
  then show ?case by simp
next
  case (Cons xs xss)
  then have len: "length xs = k" and rest: "list_all (\<lambda>xs. length xs = k) xss"
    by simp_all
  show ?case
  proof (cases r)
    case 0
    then show ?thesis using len by simp
  next
    case (Suc r')
    then have "r' < length xss" using Cons.prems(2) by simp
    from Cons.IH [OF rest this] show ?thesis
      using len Suc by simp
  qed
qed

lemma length_concat_equal_rows:
  assumes "list_all (\<lambda>xs. length xs = k) xss"
  shows "length (concat xss) = length xss * k"
  using assms by (induction xss) simp_all

lemma max_offset_mesh_fits:
  assumes "index + length vs \<le> length original"
  shows "\<exists>m'. max_offset_mesh original index vs m = Inr m'"
  using assms
proof (induction vs arbitrary: index m)
  case Nil
  then show ?case by simp
next
  case (Cons v vs)
  then have "index < length original" and "Suc index + length vs \<le> length original"
    by simp_all
  then show ?case using Cons.IH by (simp add: Let_def)
qed

lemma max_offset_mesh_too_long:
  assumes "length original < index + length vs" and "index \<le> length original"
  shows "max_offset_mesh original index vs m = Inl IndexError"
  using assms
proof (induction vs arbitrary: index m)
  case Nil
  then show ?case by simp
next
  case (Cons v vs)
  show ?case
  proof (cases "index < length original")
    case True
    have "length original < Suc index + length vs" and "Suc index \<le> length original"
      using Cons.prems True by simp_all
    from Cons.IH [OF this] show ?thesis using True by (simp add: Let_def)
  next
    case False
    then show ?thesis by simp
  qed
qed

lemma max_offset_meshes_fit:
  assumes "list_all (\<lambda>me. length me \<le> length original) mes"
  shows "\<exists>m'. max_offset_meshes original mes m = Inr m'"
  using assms
proof (induction mes arbitrary: m)
  case Nil
  then show ?case by simp
next
  case (Cons me mes)
  then have "0 + length me \<le> length original" by simp
  from max_offset_mesh_fits [OF this]
  obtain m1 where "max_offset_mesh original 0 me m = Inr m1" by blast
  then show ?case using Cons by simp
qed

lemma max_offset_meshes_too_long:
  assumes "\<not> list_all (\<lambda>me. length me \<le> length original) mes"
  shows "max_offset_meshes original mes m = Inl IndexError"
  using assms
proof (induction mes arbitrary: m)
  case Nil
  then show ?case by simp
next
  case (Cons me mes)
  show ?case
  proof (cases "length me \<le> length original")
    case True
    then have "0 + length me \<le> length original" by simp
    from max_offset_mesh_fits [OF this]
    obtain m1 where m1: "max_offset_mesh original 0 me m = Inr m1" by blast
    have "\<not> list_all (\<lambda>me. length me \<le> length original) mes"
      using Cons.prems True by simp
    from Cons.IH [OF this] show ?thesis using m1 by simp
  next
    case False
    then have "length original < 0 + length me" and "0 \<le> length original" by simp_all
    from max_offset_mesh_too_long [OF this] show ?thesis by simp
  qed
qed

lemma emit_mesh_closed:
  assumes "index + length vs \<le> length original" and "mol \<noteq> 0"
  shows "emit_mesh original mol index vs acc =
     Inr (fst acc @ concat (map (\<lambda>k. offset_pixel
              (vec_div (vec_sub (co (vs ! k)) (co (original ! (index + k)))) mol))
            [0..<length vs]),
          snd acc @ concat (map (\<lambda>k. normal_pixel (normal (vs ! k))) [0..<length vs]))"
  using assms(1)
proof (induction vs arbitrary: index acc)
  case Nil
  then show ?case by simp
next
  case (Cons v vs)
  then have i: "index < length original" and "Suc index + length vs \<le> length original"
    by simp_all
  note ih = Cons.IH [OF this(2)]
  have up: "[0..<length (v # vs)] = 0 # map Suc [0..<length vs]"
    by (simp add: upt_conv_Cons map_Suc_upt del: upt_Suc)
  show ?case
    using i assms(2) by (simp only: up) (simp add: ih Let_def comp_def)
qed


lemma emit_mesh_rows:
  assumes "length me \<le> length original" and "mol \<noteq> 0"
  shows "emit_mesh original mol 0 me acc =
     Inr (fst acc @ frame_offsets original mol me, snd acc @ frame_normals me)"
proof -
  have "0 + length me \<le> length original" using assms(1) by simp
  from emit_mesh_closed [OF this assms(2)] show ?thesis
    by (simp add: frame_offsets_def frame_normals_def)
qed

lemma emit_meshes_rows:
  assumes "list_all (\<lambda>me. length me \<le> length original) mes" and "mol \<noteq> 0"
  shows "emit_meshes original mol mes acc =
     Inr (fst acc @ concat (map (frame_offsets original mol) mes),
          snd acc @ concat (map frame_normals mes))"
  using assms(1)
proof (induction mes arbitrary: acc)
  case Nil
  then show ?case by simp
next
  case (Cons me mes)
  then have fit: "length me \<le> length original"
    and rest: "list_all (\<lambda>me. length me \<le> length original) mes"
    by simp_all
  show ?case
    by (simp add: emit_mesh_rows [OF fit assms(2)] Cons.IH [OF rest])
qed

lemma get_vertex_data_rows:
  assumes "meshes \<noteq> []"
    and "list_all (\<lambda>me. length me \<le> length (hd meshes)) meshes"
  shows "\<exists>m. max_offset_meshes (hd meshes) (rev meshes) 0 = Inr m
     \<and> get_vertex_data meshes =
         Inr (if m = 0 then 1 else m,
              concat (map (frame_offsets (hd meshes) (if m = 0 then 1 else m)) (rev meshes)),
              concat (map frame_normals (rev meshes)))"
proof -
  obtain original rest where ms: "meshes = original # rest"
    using assms(1) by (cases meshes) simp_all
  have fit: "list_all (\<lambda>me. length me \<le> length original) (rev meshes)"
    using assms(2) by (simp add: ms list_all_iff)
  from max_offset_meshes_fit [OF fit]
  obtain m where m: "max_offset_meshes original (rev meshes) 0 = Inr m" by blast
  have nz: "(if m = 0 then 1 else m) \<noteq> 0" by simp
  have "get_vertex_data meshes =
         Inr (if m = 0 then 1 else m,
              concat (map (frame_offsets original (if m = 0 then 1 else m)) (rev meshes)),
              concat (map frame_normals (rev meshes)))"
    using m emit_meshes_rows [OF fit nz, of "([], [])"]
    by (simp add: get_vertex_data_def ms Let_def del: rev.simps)
  then show ?thesis using m by (simp add: ms)
qed

lemma get_vertex_data_too_long:
  assumes "meshes \<noteq> []"
    and "\<not> list_all (\<lambda>me. length me \<le> length (hd meshes)) meshes"
  shows "get_vertex_data meshes = Inl IndexError"
proof -
  obtain original rest where ms: "meshes = original # rest"
    using assms(1) by (cases meshes) simp_all
  have "\<not> list_all (\<lambda>me. length me \<le> length original) (rev meshes)"
    using assms(2) by (simp add: ms list_all_iff)
  from max_offset_meshes_too_long [OF this] show ?thesis
    by (simp add: get_vertex_data_def ms del: rev.simps)
qed

lemma length_offset_pixel: "length (offset_pixel a) = 4"
  by (simp add: offset_pixel_def split: prod.splits)

lemma length_normal_pixel: "length (normal_pixel a) = 4"
  by (simp add: normal_pixel_def split: prod.splits)

lemma length_frame_offsets: "length (frame_offsets original mol me) = length me * 4"
proof -
  have "list_all (\<lambda>xs. length xs = 4)
     (map (\<lambda>k. offset_pixel (vec_div (vec_sub (co (me ! k)) (co (original ! k))) mol))
          [0..<length me])"
    by (simp add: list_all_iff length_offset_pixel)
  from length_concat_equal_rows [OF this] show ?thesis
    by (simp add: frame_offsets_def)
qed

lemma length_frame_normals: "length (frame_normals me) = length me * 4"
proof -
  have "list_all (\<lambda>xs. length xs = 4)
     (map (\<lambda>k. normal_pixel (normal (me ! k))) [0..<length me])"
    by (simp add: list_all_iff length_normal_pixel)
  from length_concat_equal_rows [OF this] show ?thesis
    by (simp add: frame_normals_def)
qed


lemma sum_list_scaled_lengths:
  "sum_list (map (\<lambda>me. length me * 4) (mes :: 'a list list)) = 4 * sum_list (map length mes)"
  by (induction mes) simp_all

lemma length_planes:
  "length (concat (map (frame_offsets original mol) (rev mes))) = 4 * sum_list (map length mes)"
  "length (concat (map frame_normals (rev mes))) = 4 * sum_list (map length mes)"
proof -
  have "length (concat (map (frame_offsets original mol) (rev mes)))
      = sum_list (map (\<lambda>me. length me * 4) (rev mes))"
    by (simp add: length_concat comp_def length_frame_offsets)
  also have "\<dots> = sum_list (rev (map (\<lambda>me. length me * 4) mes))"
    by (simp only: rev_map)
  also have "\<dots> = 4 * sum_list (map length mes)"
    by (simp only: sum_list_rev sum_list_scaled_lengths)
  finally show "length (concat (map (frame_offsets original mol) (rev mes)))
      = 4 * sum_list (map length mes)" .
  have "length (concat (map frame_normals (rev mes)))
      = sum_list (map (\<lambda>me. length me * 4) (rev mes))"
    by (simp add: length_concat comp_def length_frame_normals)
  also have "\<dots> = sum_list (rev (map (\<lambda>me. length me * 4) mes))"
    by (simp only: rev_map)
  also have "\<dots> = 4 * sum_list (map length mes)"
    by (simp only: sum_list_rev sum_list_scaled_lengths)
  finally show "length (concat (map frame_normals (rev mes))) = 4 * sum_list (map length mes)" .
qed

text \<open>
  C6. For a sequence of at least one frame whose frames all have \<open>n\<close> vertices,
  \<open>get_vertex_data\<close> returns planes of \<open>frameCount\<close> rows of \<open>n\<close> pixels, and row
  \<open>r\<close> of the offset plane and of the normal plane is the row of frame
  \<open>frameCount - 1 - r\<close>: row 0 holds the last frame, the last row holds frame 0.
\<close>

theorem rows_frame_reversed:
  assumes "meshes \<noteq> []" and "list_all (\<lambda>me. length me = n) meshes"
    and "r < length meshes"
  shows "\<exists>sf offsets normals.
      get_vertex_data meshes = Inr (sf, offsets, normals)
      \<and> length offsets = length meshes * (n * 4)
      \<and> length normals = length meshes * (n * 4)
      \<and> take (n * 4) (drop (r * (n * 4)) offsets)
          = frame_offsets (hd meshes) sf (meshes ! (length meshes - 1 - r))
      \<and> take (n * 4) (drop (r * (n * 4)) normals)
          = frame_normals (meshes ! (length meshes - 1 - r))"
proof -
  have n: "length (hd meshes) = n"
    using assms(1,2) by (cases meshes) simp_all
  have "list_all (\<lambda>me. length me \<le> length (hd meshes)) meshes"
    using assms(2) by (simp add: n list_all_iff)
  from get_vertex_data_rows [OF assms(1) this]
  obtain m where g: "get_vertex_data meshes =
         Inr (if m = 0 then 1 else m,
              concat (map (frame_offsets (hd meshes) (if m = 0 then 1 else m)) (rev meshes)),
              concat (map frame_normals (rev meshes)))"
    by blast
  define sf where "sf = (if m = 0 then 1 else m)"
  define orows where "orows = map (frame_offsets (hd meshes) sf) (rev meshes)"
  define nrows where "nrows = map frame_normals (rev meshes)"
  have ol: "list_all (\<lambda>xs. length xs = n * 4) orows"
    using assms(2) by (simp add: orows_def list_all_iff length_frame_offsets)
  have nl: "list_all (\<lambda>xs. length xs = n * 4) nrows"
    using assms(2) by (simp add: nrows_def list_all_iff length_frame_normals)
  have r: "r < length orows" "r < length nrows"
    using assms(3) by (simp_all add: orows_def nrows_def)
  have at: "rev meshes ! r = meshes ! (length meshes - 1 - r)"
    using assms(3) by (simp add: rev_nth)
  have "take (n * 4) (drop (r * (n * 4)) (concat orows)) = orows ! r"
    by (rule concat_equal_rows [OF ol r(1)])
  also have "orows ! r = frame_offsets (hd meshes) sf (meshes ! (length meshes - 1 - r))"
    using assms(3) by (simp add: orows_def at)
  finally have orow: "take (n * 4) (drop (r * (n * 4)) (concat orows))
      = frame_offsets (hd meshes) sf (meshes ! (length meshes - 1 - r))" .
  have "take (n * 4) (drop (r * (n * 4)) (concat nrows)) = nrows ! r"
    by (rule concat_equal_rows [OF nl r(2)])
  also have "nrows ! r = frame_normals (meshes ! (length meshes - 1 - r))"
    using assms(3) by (simp add: nrows_def at)
  finally have nrow: "take (n * 4) (drop (r * (n * 4)) (concat nrows))
      = frame_normals (meshes ! (length meshes - 1 - r))" .
  have lo: "length (concat orows) = length meshes * (n * 4)"
    using length_concat_equal_rows [OF ol] by (simp add: orows_def)
  have ln: "length (concat nrows) = length meshes * (n * 4)"
    using length_concat_equal_rows [OF nl] by (simp add: nrows_def)
  have "get_vertex_data meshes = Inr (sf, concat orows, concat nrows)"
    using g by (simp only: sf_def orows_def nrows_def)
  then show ?thesis using lo ln orow nrow by blast
qed


theorem rows_frame_reversed_witness:
  "[[\<lparr>co = (0, 0, 0), normal = (0, 0, 1)\<rparr>], [\<lparr>co = (3, 4, 0), normal = (0, 1, 0)\<rparr>]] \<noteq> []
   \<and> get_vertex_data
        [[\<lparr>co = (0, 0, 0), normal = (0, 0, 1)\<rparr>], [\<lparr>co = (3, 4, 0), normal = (0, 1, 0)\<rparr>]]
      = Inr (5, [4 / 5, 1 / 10, 1 / 2, 1, 1 / 2, 1 / 2, 1 / 2, 1],
                [1 / 2, 1, 1 / 2, 1, 1 / 2, 1 / 2, 1, 1])
   \<and> [4 / 5, 1 / 10, 1 / 2, 1]
      = frame_offsets [\<lparr>co = (0, 0, 0), normal = (0, 0, 1)\<rparr>] 5
          [\<lparr>co = (3, 4, 0), normal = (0, 1, 0)\<rparr>]
   \<and> [1 / 2, 1, 1 / 2, 1] = frame_normals [\<lparr>co = (3, 4, 0), normal = (0, 1, 0)\<rparr>]"
proof -
  define ms :: "mesh list" where
    "ms = [[\<lparr>co = (0, 0, 0), normal = (0, 0, 1)\<rparr>], [\<lparr>co = (3, 4, 0), normal = (0, 1, 0)\<rparr>]]"
  have g: "get_vertex_data ms
      = Inr (5, [4 / 5, 1 / 10, 1 / 2, 1, 1 / 2, 1 / 2, 1 / 2, 1],
                [1 / 2, 1, 1 / 2, 1, 1 / 2, 1 / 2, 1, 1])"
    by (simp add: ms_def get_vertex_data_def vec_length_def vec_sub_def vec_div_def
        offset_pixel_def normal_pixel_def Let_def)
  have h: "ms \<noteq> []" "list_all (\<lambda>me. length me = 1) ms" "0 < length ms"
    by (simp_all add: ms_def)
  from rows_frame_reversed [OF h] g
  have "take (1 * 4) (drop (0 * (1 * 4)) [4 / 5, 1 / 10, 1 / 2, 1, 1 / 2, 1 / 2, 1 / 2, 1])
          = frame_offsets (hd ms) 5 (ms ! (length ms - 1 - 0))
      \<and> take (1 * 4) (drop (0 * (1 * 4)) [1 / 2, 1, 1 / 2, 1, 1 / 2, 1 / 2, 1, 1])
          = frame_normals (ms ! (length ms - 1 - 0))"
    by auto
  then show ?thesis
    using g by (simp add: ms_def)
qed

lemma vec_zero_offset:
  "vec_length (vec_sub c c) = 0"
  "offset_pixel (vec_div (vec_sub c c) 1) = [1 / 2, 1 / 2, 1 / 2, 1]"
  by (simp_all add: vec_length_def vec_sub_def vec_div_def offset_pixel_def split: prod.splits)

lemma max_offset_mesh_static:
  assumes "index + length vs \<le> length original"
    and "\<forall>k < length vs. co (vs ! k) = co (original ! (index + k))"
  shows "max_offset_mesh original index vs 0 = Inr 0"
  using assms
proof (induction vs arbitrary: index)
  case Nil
  then show ?case by simp
next
  case (Cons v vs)
  then have i: "index < length original" and fit: "Suc index + length vs \<le> length original"
    by simp_all
  have here: "co v = co (original ! index)"
    using Cons.prems(2) by fastforce
  have "\<forall>k < length vs. co (vs ! k) = co (original ! (Suc index + k))"
  proof (intro allI impI)
    fix k assume "k < length vs"
    then have "Suc k < length (v # vs)" by simp
    with Cons.prems(2) have "co ((v # vs) ! Suc k) = co (original ! (index + Suc k))"
      by blast
    then show "co (vs ! k) = co (original ! (Suc index + k))" by simp
  qed
  from Cons.IH [OF fit this] show ?case
    using i by (simp add: here vec_zero_offset Let_def)
qed

lemma same_positions:
  assumes "map co me = map co original"
  shows "length me = length original" and "\<forall>k < length me. co (me ! k) = co (original ! k)"
proof -
  show l: "length me = length original"
    using assms by (rule map_eq_imp_length_eq)
  show "\<forall>k < length me. co (me ! k) = co (original ! k)"
  proof (intro allI impI)
    fix k assume k: "k < length me"
    then have "map co me ! k = co (me ! k)" by simp
    moreover have "map co original ! k = co (original ! k)" using k l by simp
    ultimately show "co (me ! k) = co (original ! k)" using assms by simp
  qed
qed

lemma max_offset_meshes_static:
  assumes "list_all (\<lambda>me. map co me = map co original) mes"
  shows "max_offset_meshes original mes 0 = Inr 0"
  using assms
proof (induction mes)
  case Nil
  then show ?case by simp
next
  case (Cons me mes)
  then have eq: "map co me = map co original" by simp
  have "0 + length me \<le> length original"
    and "\<forall>k < length me. co (me ! k) = co (original ! (0 + k))"
    using same_positions [OF eq] by simp_all
  from max_offset_mesh_static [OF this] show ?case
    using Cons by simp
qed

lemma frame_offsets_static:
  assumes "map co me = map co original"
  shows "frame_offsets original 1 me = concat (replicate (length original) [1 / 2, 1 / 2, 1 / 2, 1])"
proof -
  have "map (\<lambda>k. offset_pixel (vec_div (vec_sub (co (me ! k)) (co (original ! k))) 1))
            [0..<length me]
      = map (\<lambda>k. [1 / 2, 1 / 2, 1 / 2, 1]) [0..<length me]"
    using same_positions(2) [OF assms] by (intro map_cong) (simp_all add: vec_zero_offset)
  also have "\<dots> = replicate (length me) [1 / 2, 1 / 2, 1 / 2, 1]"
    by (simp add: map_replicate_const)
  finally show ?thesis
    by (simp add: frame_offsets_def same_positions(1) [OF assms])
qed

lemma concat_replicate_mult:
  "concat (replicate f (concat (replicate n p))) = concat (replicate (f * n) p)"
  by (induction f) (simp_all add: replicate_add)

text \<open>
  C5. When every frame has the vertex positions of the rest frame, the scale factor
  written to the scene is 1 and the offset plane consists of the pixel
  \<open>(0.5, 0.5, 0.5, 1)\<close> for every vertex of every frame: each x, y and z value is 0.5.
\<close>

theorem static_sequence:
  assumes "meshes \<noteq> []"
    and "list_all (\<lambda>me. map co me = map co (hd meshes)) meshes"
  shows "get_vertex_data meshes =
     Inr (1,
          concat (replicate (length meshes * length (hd meshes)) [1 / 2, 1 / 2, 1 / 2, 1]),
          concat (map frame_normals (rev meshes)))"
proof -
  have rv: "list_all (\<lambda>me. map co me = map co (hd meshes)) (rev meshes)"
    using assms(2) by (simp add: list_all_iff)
  have m0: "max_offset_meshes (hd meshes) (rev meshes) 0 = Inr 0"
    by (rule max_offset_meshes_static [OF rv])
  have "list_all (\<lambda>me. length me \<le> length (hd meshes)) meshes"
    using assms(2) same_positions(1) by (fastforce simp: list_all_iff)
  from get_vertex_data_rows [OF assms(1) this] m0
  have g: "get_vertex_data meshes =
         Inr (1, concat (map (frame_offsets (hd meshes) 1) (rev meshes)),
              concat (map frame_normals (rev meshes)))"
    by simp
  have "map (frame_offsets (hd meshes) 1) (rev meshes)
      = map (\<lambda>me. concat (replicate (length (hd meshes)) [1 / 2, 1 / 2, 1 / 2, 1])) (rev meshes)"
    using rv by (intro map_cong) (simp_all add: list_all_iff frame_offsets_static)
  also have "\<dots> = replicate (length meshes)
                     (concat (replicate (length (hd meshes)) [1 / 2, 1 / 2, 1 / 2, 1]))"
    by (simp add: map_replicate_const)
  finally have "concat (map (frame_offsets (hd meshes) 1) (rev meshes))
      = concat (replicate (length meshes * length (hd meshes)) [1 / 2, 1 / 2, 1 / 2, 1])"
    by (simp only: concat_replicate_mult)
  then show ?thesis using g by simp
qed

theorem static_sequence_witness:
  "get_vertex_data
     [[\<lparr>co = (1, 2, 3), normal = (0, 0, 1)\<rparr>, \<lparr>co = (4, 5, 6), normal = (0, 1, 0)\<rparr>],
      [\<lparr>co = (1, 2, 3), normal = (1, 0, 0)\<rparr>, \<lparr>co = (4, 5, 6), normal = (0, 0, 1)\<rparr>]]
   = Inr (1,
          [1 / 2, 1 / 2, 1 / 2, 1, 1 / 2, 1 / 2, 1 / 2, 1,
           1 / 2, 1 / 2, 1 / 2, 1, 1 / 2, 1 / 2, 1 / 2, 1],
          [1, 1 / 2, 1 / 2, 1, 1 / 2, 1 / 2, 1, 1,
           1 / 2, 1 / 2, 1, 1, 1 / 2, 1, 1 / 2, 1])"
proof -
  define ms :: "mesh list" where
    "ms = [[\<lparr>co = (1, 2, 3), normal = (0, 0, 1)\<rparr>, \<lparr>co = (4, 5, 6), normal = (0, 1, 0)\<rparr>],
      [\<lparr>co = (1, 2, 3), normal = (1, 0, 0)\<rparr>, \<lparr>co = (4, 5, 6), normal = (0, 0, 1)\<rparr>]]"
  have h: "ms \<noteq> []" "list_all (\<lambda>me. map co me = map co (hd ms)) ms"
    by (simp_all add: ms_def)
  have four: "length ms * length (hd ms) = Suc (Suc (Suc (Suc 0)))"
    by (simp add: ms_def)
  from static_sequence [OF h] show ?thesis
    unfolding four
    by (simp add: ms_def frame_normals_def normal_pixel_def upt_rec)
qed


text \<open>The values of the offset plane lie in the unit interval.\<close>

lemma max_offset_mesh_bound:
  assumes "max_offset_mesh original index vs m = Inr m'"
  shows "m \<le> m' \<and> (\<forall>k < length vs.
           vec_length (vec_sub (co (vs ! k)) (co (original ! (index + k)))) \<le> m')"
  using assms
proof (induction vs arbitrary: index m)
  case Nil
  then show ?case by simp
next
  case (Cons v vs)
  let ?l = "vec_length (vec_sub (co v) (co (original ! index)))"
  let ?m1 = "if ?l > m then ?l else m"
  have i: "index < length original"
    using Cons.prems by (simp split: if_splits)
  then have rec: "max_offset_mesh original (Suc index) vs ?m1 = Inr m'"
    using Cons.prems by (simp add: Let_def)
  from Cons.IH [OF rec]
  have m1: "?m1 \<le> m'"
    and rest: "\<forall>k < length vs.
           vec_length (vec_sub (co (vs ! k)) (co (original ! (Suc index + k)))) \<le> m'"
    by blast+
  have m: "m \<le> m'" and here: "?l \<le> m'"
    using m1 by (simp_all split: if_splits)
  have "\<forall>k < length (v # vs).
           vec_length (vec_sub (co ((v # vs) ! k)) (co (original ! (index + k)))) \<le> m'"
  proof (intro allI impI)
    fix k assume k: "k < length (v # vs)"
    show "vec_length (vec_sub (co ((v # vs) ! k)) (co (original ! (index + k)))) \<le> m'"
    proof (cases k)
      case 0
      then show ?thesis using here by simp
    next
      case (Suc k')
      then have "k' < length vs" using k by simp
      with rest
      have "vec_length (vec_sub (co (vs ! k')) (co (original ! (Suc index + k')))) \<le> m'"
        by blast
      then show ?thesis by (simp add: Suc)
    qed
  qed
  then show ?case using m by blast
qed

lemma max_offset_meshes_bound:
  assumes "max_offset_meshes original mes m = Inr m'"
  shows "m \<le> m' \<and> (\<forall>me \<in> set mes. \<forall>k < length me.
           vec_length (vec_sub (co (me ! k)) (co (original ! k))) \<le> m')"
  using assms
proof (induction mes arbitrary: m)
  case Nil
  then show ?case by simp
next
  case (Cons me mes)
  then obtain m1 where a: "max_offset_mesh original 0 me m = Inr m1"
    and b: "max_offset_meshes original mes m1 = Inr m'"
    by (auto split: sum.splits)
  from Cons.IH [OF b]
  have m1: "m1 \<le> m'"
    and rest: "\<forall>me \<in> set mes. \<forall>k < length me.
           vec_length (vec_sub (co (me ! k)) (co (original ! k))) \<le> m'"
    by blast+
  from max_offset_mesh_bound [OF a]
  have m: "m \<le> m1"
    and "\<forall>k < length me. vec_length (vec_sub (co (me ! k)) (co (original ! k))) \<le> m1"
    by simp_all
  then have "\<forall>k < length me. vec_length (vec_sub (co (me ! k)) (co (original ! k))) \<le> m'"
    using m1 by fastforce
  then show ?case using rest m m1 by simp
qed

lemma component_le_length:
  "\<bar>x\<bar> \<le> vec_length (x, y, z)" "\<bar>y\<bar> \<le> vec_length (x, y, z)" "\<bar>z\<bar> \<le> vec_length (x, y, z)"
proof -
  have "sqrt (x * x) \<le> sqrt (x * x + y * y + z * z)"
    by (rule real_sqrt_le_mono) simp
  then show "\<bar>x\<bar> \<le> vec_length (x, y, z)" by (simp add: vec_length_def)
  have "sqrt (y * y) \<le> sqrt (x * x + y * y + z * z)"
    by (rule real_sqrt_le_mono) simp
  then show "\<bar>y\<bar> \<le> vec_length (x, y, z)" by (simp add: vec_length_def)
  have "sqrt (z * z) \<le> sqrt (x * x + y * y + z * z)"
    by (rule real_sqrt_le_mono) simp
  then show "\<bar>z\<bar> \<le> vec_length (x, y, z)" by (simp add: vec_length_def)
qed

lemma unit_channel:
  fixes x s :: real
  assumes "0 < s" and "\<bar>x\<bar> \<le> s"
  shows "0 \<le> (x / s + 1) * (1 / 2)" "(x / s + 1) * (1 / 2) \<le> 1"
    "0 \<le> (- (x / s) + 1) * (1 / 2)" "(- (x / s) + 1) * (1 / 2) \<le> 1"
proof -
  have "- 1 \<le> x / s" "x / s \<le> 1"
    using assms by (simp_all add: pos_le_divide_eq pos_divide_le_eq abs_le_iff)
  then show "0 \<le> (x / s + 1) * (1 / 2)" "(x / s + 1) * (1 / 2) \<le> 1"
    "0 \<le> (- (x / s) + 1) * (1 / 2)" "(- (x / s) + 1) * (1 / 2) \<le> 1"
    by simp_all
qed

lemma offset_pixel_unit:
  assumes "0 < s" and "vec_length d \<le> s"
  shows "list_all (\<lambda>v. 0 \<le> v \<and> v \<le> 1) (offset_pixel (vec_div d s))"
proof -
  obtain x y z where d: "d = (x, y, z)" by (cases d) auto
  have "\<bar>x\<bar> \<le> s" "\<bar>y\<bar> \<le> s" "\<bar>z\<bar> \<le> s"
    using component_le_length(1) [of x y z] component_le_length(2) [of y x z]
      component_le_length(3) [of z x y] assms(2) by (simp_all add: d)
  then show ?thesis
    using unit_channel [OF assms(1)] by (simp add: d vec_div_def offset_pixel_def)
qed

lemma frame_offsets_unit:
  assumes "0 < s"
    and "\<forall>k < length me. vec_length (vec_sub (co (me ! k)) (co (original ! k))) \<le> s"
  shows "list_all (\<lambda>v. 0 \<le> v \<and> v \<le> 1) (frame_offsets original s me)"
proof -
  have "list_all (\<lambda>v. 0 \<le> v \<and> v \<le> 1)
          (offset_pixel (vec_div (vec_sub (co (me ! k)) (co (original ! k))) s))"
    if "k < length me" for k
    using assms(2) that by (intro offset_pixel_unit [OF assms(1)]) blast
  then show ?thesis
    by (auto simp: frame_offsets_def list_all_iff)
qed

lemma offsets_unit:
  assumes "meshes \<noteq> []"
    and "list_all (\<lambda>me. length me \<le> length (hd meshes)) meshes"
    and "get_vertex_data meshes = Inr (sf, offsets, normals)"
  shows "list_all (\<lambda>v. 0 \<le> v \<and> v \<le> 1) offsets"
proof -
  from get_vertex_data_rows [OF assms(1,2)]
  obtain m where m: "max_offset_meshes (hd meshes) (rev meshes) 0 = Inr m"
    and g: "get_vertex_data meshes =
         Inr (if m = 0 then 1 else m,
              concat (map (frame_offsets (hd meshes) (if m = 0 then 1 else m)) (rev meshes)),
              concat (map frame_normals (rev meshes)))"
    by blast
  have sf: "sf = (if m = 0 then 1 else m)"
    and off: "offsets = concat (map (frame_offsets (hd meshes) sf) (rev meshes))"
    using g assms(3) by simp_all
  have m0: "0 \<le> m" using max_offset_meshes_bound [OF m] by blast
  then have pos: "0 < sf" by (simp add: sf)
  have "m \<le> sf" using m0 by (simp add: sf)
  then have "\<forall>me \<in> set (rev meshes). \<forall>k < length me.
           vec_length (vec_sub (co (me ! k)) (co (hd meshes ! k))) \<le> sf"
    using max_offset_meshes_bound [OF m] by fastforce
  then have "\<forall>me \<in> set (rev meshes).
      list_all (\<lambda>v. 0 \<le> v \<and> v \<le> 1) (frame_offsets (hd meshes) sf me)"
    using frame_offsets_unit [OF pos] by blast
  then show ?thesis
    by (auto simp: off list_all_iff)
qed

subsection \<open>Chunked images\<close>

lemma concat_consecutive_takes:
  "concat (map (\<lambda>i. take k (drop (i * k) xs)) [0..<m]) = take (m * k) xs"
proof (induction m)
  case 0
  then show ?case by simp
next
  case (Suc m)
  have "take (m * k) xs @ take k (drop (m * k) xs) = take (m * k + k) xs"
    by (simp add: take_add)
  then show ?case using Suc by (simp add: add.commute)
qed

lemma slice_of_row:
  assumes "a + c \<le> w"
  shows "py_slice xs (b + a) (b + a + c) = take c (drop a (take w (drop b xs)))"
proof -
  have "take c (drop a (take w (drop b xs))) = take c (take (w - a) (drop a (drop b xs)))"
    by (simp add: drop_take)
  also have "\<dots> = take c (drop (b + a) xs)"
    using assms by (simp add: min_def add.commute)
  finally show ?thesis by (simp add: py_slice_def)
qed

lemma chunk_columns_fit:
  fixes cw width i :: nat
  assumes "0 < cw" and "i < width div cw + (if width mod cw \<noteq> 0 then 1 else 0)"
  shows "i * cw + (if i \<noteq> width div cw then cw else width mod cw) \<le> width"
proof (cases "i = width div cw")
  case True
  then show ?thesis by simp
next
  case False
  then have "i < width div cw" using assms(2) by (simp split: if_splits)
  then have "Suc i \<le> width div cw" by simp
  then have "Suc i * cw \<le> width div cw * cw" by (rule mult_le_mono1)
  also have "\<dots> \<le> width" by simp
  finally show ?thesis using False by simp
qed

lemma chunk_row_eq:
  assumes "0 < cw" and "length byte_list = width * height * 4" and "y < height"
    and "i < width div cw + (if width mod cw \<noteq> 0 then 1 else 0)"
  defines "w \<equiv> (if i \<noteq> width div cw then cw else width mod cw)"
  shows "chunk_row cw byte_list width (width div cw) (width mod cw) i y
       = padding @ take (w * 4) (drop (i * cw * 4) (take (width * 4) (drop (y * width * 4) byte_list)))
         @ padding"
    and "length (take (w * 4) (drop (i * cw * 4)
            (take (width * 4) (drop (y * width * 4) byte_list)))) = w * 4"
proof -
  have fit: "i * cw + w \<le> width"
    unfolding w_def by (rule chunk_columns_fit [OF assms(1,4)])
  then have fit4: "i * cw * 4 + w * 4 \<le> width * 4" by simp
  have "py_slice byte_list (y * width * 4 + i * cw * 4) (y * width * 4 + i * cw * 4 + w * 4)
      = take (w * 4) (drop (i * cw * 4) (take (width * 4) (drop (y * width * 4) byte_list)))"
    by (rule slice_of_row [OF fit4])
  moreover have "(y * width + i * cw) * 4 = y * width * 4 + i * cw * 4"
    by (simp add: algebra_simps)
  moreover have "(if i = width div cw then (y * width + i * cw) * 4 + width mod cw * 4
                  else (y * width + i * cw) * 4 + cw * 4)
      = y * width * 4 + i * cw * 4 + w * 4"
    by (simp add: w_def algebra_simps)
  ultimately show "chunk_row cw byte_list width (width div cw) (width mod cw) i y
       = padding @ take (w * 4) (drop (i * cw * 4) (take (width * 4) (drop (y * width * 4) byte_list)))
         @ padding"
    by (simp only: chunk_row_def Let_def)
  have "Suc y \<le> height" using assms(3) by simp
  then have "Suc y * width \<le> height * width" by (rule mult_le_mono1)
  then have "y * width * 4 + width * 4 \<le> length byte_list"
    using assms(2) by (simp add: algebra_simps)
  then have "length (take (width * 4) (drop (y * width * 4) byte_list)) = width * 4"
    by simp
  then show "length (take (w * 4) (drop (i * cw * 4)
            (take (width * 4) (drop (y * width * 4) byte_list)))) = w * 4"
    using fit4 by simp
qed


lemma length_padding: "length padding = 4"
  by (simp add: padding_def)

lemma build_chunk_fields:
  assumes "build_chunk cw byte_list name width height cc rw i = Inr im"
  shows "part im = i"
    and "img_width im = (if i \<noteq> cc then cw else rw) + 2"
    and "img_height im = height"
    and "pixels im = concat (map (chunk_row cw byte_list width cc rw i) [0..<height])"
    and "length (pixels im) = img_width im * height * 4"
  using assms by (auto simp: build_chunk_def Let_def split: if_splits)

lemma build_chunk_rejects:
  assumes "length (concat (map (chunk_row cw byte_list width cc rw i) [0..<height]))
             \<noteq> ((if i \<noteq> cc then cw else rw) + 2) * height * 4"
  shows "build_chunk cw byte_list name width height cc rw i = Inl ValueError"
  using assms by (auto simp: build_chunk_def Let_def)

lemma build_chunk_accepts:
  assumes "length (concat (map (chunk_row cw byte_list width cc rw i) [0..<height]))
             = ((if i \<noteq> cc then cw else rw) + 2) * height * 4"
  shows "\<exists>im. build_chunk cw byte_list name width height cc rw i = Inr im"
  using assms by (auto simp: build_chunk_def Let_def)

lemma save_chunks_all:
  assumes "list_all (\<lambda>i. \<exists>im. build i = Inr im) idxs"
  shows "\<exists>images. save_chunks build idxs = Inr images \<and> length images = length idxs
           \<and> (\<forall>k < length idxs. build (idxs ! k) = Inr (images ! k))"
  using assms
proof (induction idxs)
  case Nil
  then show ?case by simp
next
  case (Cons i idxs)
  then obtain im images where im: "build i = Inr im"
    and ims: "save_chunks build idxs = Inr images" "length images = length idxs"
      "\<forall>k < length idxs. build (idxs ! k) = Inr (images ! k)"
    by auto
  have "\<forall>k < length (i # idxs). build ((i # idxs) ! k) = Inr ((im # images) ! k)"
  proof (intro allI impI)
    fix k assume "k < length (i # idxs)"
    then show "build ((i # idxs) ! k) = Inr ((im # images) ! k)"
      using im ims(3) by (cases k) simp_all
  qed
  then show ?case using im ims(1,2) by simp
qed

lemma chunk_bytes_length:
  assumes "0 < cw" and "length byte_list = width * height * 4"
    and "i < width div cw + (if width mod cw \<noteq> 0 then 1 else 0)"
  shows "length (concat (map (chunk_row cw byte_list width (width div cw) (width mod cw) i)
                             [0..<height]))
       = ((if i \<noteq> width div cw then cw else width mod cw) + 2) * height * 4"
proof -
  define w where "w = (if i \<noteq> width div cw then cw else width mod cw)"
  define rows where
    "rows = map (chunk_row cw byte_list width (width div cw) (width mod cw) i) [0..<height]"
  have "length (chunk_row cw byte_list width (width div cw) (width mod cw) i y) = (w + 2) * 4"
    if "y < height" for y
    using chunk_row_eq [OF assms(1,2) that assms(3)] by (simp add: w_def length_padding)
  then have "list_all (\<lambda>xs. length xs = (w + 2) * 4) rows"
    by (simp add: rows_def list_all_iff)
  from length_concat_equal_rows [OF this] show ?thesis
    by (auto simp: rows_def w_def algebra_simps)
qed

lemma chunk_data_row_eq:
  assumes "0 < cw" and "length byte_list = width * height * 4" and "y < height"
    and "i < width div cw + (if width mod cw \<noteq> 0 then 1 else 0)"
    and "build_chunk cw byte_list name width height (width div cw) (width mod cw) i = Inr im"
  shows "chunk_data_row im y
       = take ((if i \<noteq> width div cw then cw else width mod cw) * 4)
           (drop (i * cw * 4) (take (width * 4) (drop (y * width * 4) byte_list)))"
proof -
  define w where "w = (if i \<noteq> width div cw then cw else width mod cw)"
  define data where "data = (\<lambda>y. take (w * 4)
      (drop (i * cw * 4) (take (width * 4) (drop (y * width * 4) byte_list))))"
  define rows where
    "rows = map (chunk_row cw byte_list width (width div cw) (width mod cw) i) [0..<height]"
  have row: "chunk_row cw byte_list width (width div cw) (width mod cw) i y'
       = padding @ data y' @ padding"
    and len: "length (data y') = w * 4" if "y' < height" for y'
    using chunk_row_eq [OF assms(1,2) that assms(4)] by (simp_all add: data_def w_def)
  have iw: "img_width im = w + 2" and px: "pixels im = concat rows"
    using build_chunk_fields(2,4) [OF assms(5)] by (simp_all add: rows_def w_def)
  have "list_all (\<lambda>xs. length xs = (w + 2) * 4) rows"
    by (simp add: rows_def list_all_iff row len length_padding)
  moreover have "y < length rows" using assms(3) by (simp add: rows_def)
  ultimately have "take ((w + 2) * 4) (drop (y * ((w + 2) * 4)) (concat rows)) = rows ! y"
    by (rule concat_equal_rows)
  also have "rows ! y = padding @ data y @ padding"
    using assms(3) by (simp add: rows_def row)
  finally have "chunk_data_row im y = take (w * 4) (drop 4 (padding @ data y @ padding))"
    by (simp add: chunk_data_row_def iw px)
  also have "\<dots> = data y"
    using len [OF assms(3)] by (simp add: length_padding)
  finally show ?thesis by (simp add: data_def w_def)
qed

lemma chunks_cover_row:
  fixes cw width :: nat
  assumes "0 < cw" and "length row = width * 4"
  shows "concat (map (\<lambda>i. take ((if i \<noteq> width div cw then cw else width mod cw) * 4)
                          (drop (i * cw * 4) row))
                   [0..<width div cw + (if width mod cw \<noteq> 0 then 1 else 0)])
       = row"
proof -
  define cc where "cc = width div cw"
  define rw where "rw = width mod cw"
  have "cc * cw + rw = width" by (simp add: cc_def rw_def)
  then have "(cc * cw + rw) * 4 = width * 4" by simp
  then have split: "cc * (cw * 4) + rw * 4 = width * 4"
    by (simp only: distrib_right mult.assoc)
  have "map (\<lambda>i. take ((if i \<noteq> cc then cw else rw) * 4) (drop (i * cw * 4) row)) [0..<cc]
      = map (\<lambda>i. take (cw * 4) (drop (i * (cw * 4)) row)) [0..<cc]"
    by (intro map_cong) (simp_all add: mult.assoc)
  then have full: "concat (map (\<lambda>i. take ((if i \<noteq> cc then cw else rw) * 4)
                          (drop (i * cw * 4) row)) [0..<cc])
      = take (cc * (cw * 4)) row"
    by (simp only: concat_consecutive_takes)
  have "concat (map (\<lambda>i. take ((if i \<noteq> cc then cw else rw) * 4) (drop (i * cw * 4) row))
                   [0..<cc + (if rw \<noteq> 0 then 1 else 0)])
       = row"
  proof (cases "rw = 0")
    case True
    then have "length row = cc * (cw * 4)" using split assms(2) by simp
    then show ?thesis
      using full True by simp
  next
    case False
    have "take (rw * 4) (drop (cc * cw * 4) row) = drop (cc * (cw * 4)) row"
      using split assms(2) by (simp add: mult.assoc)
    then have "concat (map (\<lambda>i. take ((if i \<noteq> cc then cw else rw) * 4)
                          (drop (i * cw * 4) row)) [0..<cc + 1])
      = take (cc * (cw * 4)) row @ drop (cc * (cw * 4)) row"
      using full by simp
    then show ?thesis
      using False by simp
  qed
  then show ?thesis by (simp only: cc_def rw_def)
qed

lemma chunk_widths_sum:
  fixes cw width :: nat
  shows "sum_list (map (\<lambda>i. if i \<noteq> width div cw then cw else width mod cw)
                   [0..<width div cw + (if width mod cw \<noteq> 0 then 1 else 0)])
       = width"
proof -
  define cc where "cc = width div cw"
  define rw where "rw = width mod cw"
  have "map (\<lambda>i. if i \<noteq> cc then cw else rw) [0..<cc] = map (\<lambda>i. cw) [0..<cc]"
    by (intro map_cong) simp_all
  then have "sum_list (map (\<lambda>i. if i \<noteq> cc then cw else rw) [0..<cc]) = cc * cw"
    by (simp add: map_replicate_const sum_list_replicate)
  moreover have "cc * cw + rw = width" by (simp add: cc_def rw_def)
  ultimately have "sum_list (map (\<lambda>i. if i \<noteq> cc then cw else rw)
                   [0..<cc + (if rw \<noteq> 0 then 1 else 0)]) = width"
    by auto
  then show ?thesis by (simp only: cc_def rw_def)
qed


text \<open>
  C3. For a plane of logical width \<open>width\<close> and height \<open>height\<close> (a list of
  \<open>width * height * 4\<close> values) and a chunk width \<open>cw > 0\<close>, the builder saves
  \<open>width div cw\<close> images, and one more exactly when \<open>width mod cw > 0\<close>. Image \<open>i\<close>
  is part \<open>i\<close>; without its two padding columns it is \<open>cw\<close> wide, the last partial one
  \<open>width mod cw\<close>, and its row \<open>y\<close> holds the columns from \<open>i * cw\<close> on of row \<open>y\<close> of
  the plane. The widths add up to \<open>width\<close>, and the data rows of the images, put side
  by side in order, are exactly row \<open>y\<close> of the plane: no column is left out or repeated.
\<close>

theorem chunk_coverage:
  assumes "0 < cw" and "length byte_list = width * height * 4"
  shows "\<exists>images. chunk_images cw byte_list name (width, height) = Inr images
     \<and> length images = width div cw + (if 0 < width mod cw then 1 else 0)
     \<and> sum_list (map (\<lambda>im. img_width im - 2) images) = width
     \<and> (\<forall>i < length images.
           part (images ! i) = i
           \<and> img_width (images ! i) - 2 = (if i < width div cw then cw else width mod cw)
           \<and> (\<forall>y < height. chunk_data_row (images ! i) y
                 = take ((img_width (images ! i) - 2) * 4)
                     (drop (i * cw * 4) (take (width * 4) (drop (y * width * 4) byte_list)))))
     \<and> (\<forall>y < height. concat (map (\<lambda>im. chunk_data_row im y) images)
           = take (width * 4) (drop (y * width * 4) byte_list))"
proof -
  define N where "N = width div cw + (if width mod cw \<noteq> 0 then 1 else 0)"
  define build where
    "build = build_chunk cw byte_list name width height (width div cw) (width mod cw)"
  define w where "w = (\<lambda>i. if i \<noteq> width div cw then cw else width mod cw)"
  have "\<exists>im. build i = Inr im" if "i < N" for i
    unfolding build_def
    using chunk_bytes_length [OF assms, of i] that
    by (intro build_chunk_accepts) (simp add: N_def)
  then have "list_all (\<lambda>i. \<exists>im. build i = Inr im) [0..<N]"
    by (simp add: list_all_iff)
  from save_chunks_all [OF this]
  obtain images where sv: "save_chunks build [0..<N] = Inr images"
    and ln: "length images = N"
    and at: "\<forall>k < N. build k = Inr (images ! k)"
    by auto
  have res: "chunk_images cw byte_list name (width, height) = Inr images"
    using assms(1) sv by (simp add: chunk_images_def Let_def build_def N_def)
  have len: "length images = width div cw + (if 0 < width mod cw then 1 else 0)"
    by (simp add: ln N_def)
  have iw: "img_width (images ! i) - 2 = w i" and pt: "part (images ! i) = i" if "i < N" for i
    using build_chunk_fields(1,2) [of cw byte_list name width height "width div cw"
        "width mod cw" i "images ! i"] at that
    by (simp_all add: build_def w_def)
  have wi: "w i = (if i < width div cw then cw else width mod cw)" if "i < N" for i
    using that by (auto simp: w_def N_def split: if_splits)
  have data: "chunk_data_row (images ! i) y
      = take (w i * 4) (drop (i * cw * 4) (take (width * 4) (drop (y * width * 4) byte_list)))"
    if "i < N" and "y < height" for i y
  proof -
    have b: "build_chunk cw byte_list name width height (width div cw) (width mod cw) i
          = Inr (images ! i)"
      using at that(1) by (simp add: build_def)
    have i: "i < width div cw + (if width mod cw \<noteq> 0 then 1 else 0)"
      using that(1) by (simp add: N_def)
    show ?thesis
      using chunk_data_row_eq [OF assms that(2) i b] by (simp add: w_def)
  qed
  have "map (\<lambda>im. img_width im - 2) images = map w [0..<N]"
    using iw ln by (intro nth_equalityI) simp_all
  then have total: "sum_list (map (\<lambda>im. img_width im - 2) images) = width"
    using chunk_widths_sum [of width cw] by (simp add: w_def N_def)
  have each: "\<forall>i < length images.
           part (images ! i) = i
           \<and> img_width (images ! i) - 2 = (if i < width div cw then cw else width mod cw)
           \<and> (\<forall>y < height. chunk_data_row (images ! i) y
                 = take ((img_width (images ! i) - 2) * 4)
                     (drop (i * cw * 4) (take (width * 4) (drop (y * width * 4) byte_list))))"
  proof (intro allI impI)
    fix i assume "i < length images"
    then have i: "i < N" by (simp add: ln)
    show "part (images ! i) = i
           \<and> img_width (images ! i) - 2 = (if i < width div cw then cw else width mod cw)
           \<and> (\<forall>y < height. chunk_data_row (images ! i) y
                 = take ((img_width (images ! i) - 2) * 4)
                     (drop (i * cw * 4) (take (width * 4) (drop (y * width * 4) byte_list))))"
      using data [OF i] wi [OF i] by (simp add: pt [OF i] iw [OF i])
  qed
  have cover: "\<forall>y < height. concat (map (\<lambda>im. chunk_data_row im y) images)
           = take (width * 4) (drop (y * width * 4) byte_list)"
  proof (intro allI impI)
    fix y assume y: "y < height"
    define row where "row = take (width * 4) (drop (y * width * 4) byte_list)"
    have "Suc y \<le> height" using y by simp
    then have "Suc y * width \<le> height * width" by (rule mult_le_mono1)
    then have "y * width * 4 + width * 4 \<le> length byte_list"
      using assms(2) by (simp add: algebra_simps)
    then have lr: "length row = width * 4" by (simp add: row_def)
    have "map (\<lambda>im. chunk_data_row im y) images
        = map (\<lambda>i. take (w i * 4) (drop (i * cw * 4) row)) [0..<N]"
      using data y ln by (intro nth_equalityI) (simp_all add: row_def)
    then have "concat (map (\<lambda>im. chunk_data_row im y) images)
        = concat (map (\<lambda>i. take (w i * 4) (drop (i * cw * 4) row)) [0..<N])"
      by simp
    also have "\<dots> = row"
      using chunks_cover_row [OF assms(1) lr] by (simp add: w_def N_def)
    finally show "concat (map (\<lambda>im. chunk_data_row im y) images)
           = take (width * 4) (drop (y * width * 4) byte_list)"
      by (simp add: row_def)
  qed
  show ?thesis using res len total each cover by blast
qed

theorem chunk_coverage_witness:
  "0 < chunk_width \<and> length (replicate 520 (0::real)) = 130 * 1 * 4
   \<and> (\<exists>images. create_and_save_image (replicate 520 0) ''p'' (130, 1) = Inr images
        \<and> length images = 2
        \<and> sum_list (map (\<lambda>im. img_width im - 2) images) = 130
        \<and> concat (map (\<lambda>im. chunk_data_row im 0) images) = replicate 520 0)"
proof -
  have h: "(0::nat) < 128" "length (replicate 520 (0::real)) = 130 * 1 * 4"
    by simp_all
  from chunk_coverage [OF h, of "''p''"]
  obtain images where i: "chunk_images 128 (replicate 520 0) ''p'' (130, 1) = Inr images"
    and l: "length images = 130 div 128 + (if 0 < (130::nat) mod 128 then 1 else 0)"
    and s: "sum_list (map (\<lambda>im. img_width im - 2) images) = 130"
    and c: "\<forall>y < 1. concat (map (\<lambda>im. chunk_data_row im y) images)
           = take (130 * 4) (drop (y * 130 * 4) (replicate 520 (0::real)))"
    by blast
  have "concat (map (\<lambda>im. chunk_data_row im 0) images) = replicate 520 0"
    using c by simp
  moreover have "length images = 2" using l by simp
  ultimately show ?thesis
    using i s by (simp add: create_and_save_image_def chunk_width_def)
qed


lemma length_concat_le:
  assumes "\<forall>xs \<in> set xss. length xs \<le> c"
  shows "length (concat xss) \<le> length xss * c"
  using assms
proof (induction xss)
  case Nil
  then show ?case by simp
next
  case (Cons xs xss)
  then have "length xs \<le> c" and "length (concat xss) \<le> length xss * c" by simp_all
  then show ?case by simp
qed

lemma length_concat_short:
  assumes "\<forall>xs \<in> set xss. length xs \<le> c" and "\<exists>xs \<in> set xss. length xs < c"
  shows "length (concat xss) < length xss * c"
  using assms
proof (induction xss)
  case Nil
  then show ?case by simp
next
  case (Cons xs xss)
  then have le: "length xs \<le> c" and rest: "\<forall>ys \<in> set xss. length ys \<le> c" by simp_all
  show ?case
  proof (cases "length xs < c")
    case True
    then show ?thesis using length_concat_le [OF rest] by simp
  next
    case False
    then have "\<exists>ys \<in> set xss. length ys < c" using Cons.prems(2) by auto
    from Cons.IH [OF rest this] show ?thesis using le by simp
  qed
qed

lemma build_chunk_error:
  "build_chunk cw byte_list name width height cc rw i = Inl e \<Longrightarrow> e = ValueError"
  by (auto simp: build_chunk_def Let_def split: if_splits)

lemma save_chunks_fails:
  assumes "i \<in> set idxs" and "build i = Inl e" and "\<And>j e'. build j = Inl e' \<Longrightarrow> e' = e"
  shows "save_chunks build idxs = Inl e"
  using assms(1)
proof (induction idxs)
  case Nil
  then show ?case by simp
next
  case (Cons j idxs)
  show ?case
  proof (cases "build j")
    case (Inl e')
    then show ?thesis using assms(3) [OF Inl] by simp
  next
    case (Inr im)
    then have "i \<in> set idxs" using Cons.prems assms(2) by auto
    from Cons.IH [OF this] show ?thesis using Inr by simp
  qed
qed

lemma length_chunk_row_le:
  "length (chunk_row cw byte_list width cc rw i y) \<le> ((if i \<noteq> cc then cw else rw) + 2) * 4"
  by (simp add: chunk_row_def Let_def py_slice_def length_padding)

text \<open>A plane with too few values does not fill the last chunk.\<close>

lemma chunk_images_short:
  assumes "0 < cw" and "0 < width" and "length byte_list < width * height * 4"
  shows "chunk_images cw byte_list name (width, height) = Inl ValueError"
proof -
  define cc where "cc = width div cw"
  define rw where "rw = width mod cw"
  define N where "N = cc + (if rw \<noteq> 0 then 1 else 0)"
  define L where "L = N - 1"
  define w where "w = (if L \<noteq> cc then cw else rw)"
  define build where "build = build_chunk cw byte_list name width height cc rw"
  have split: "cc * cw + rw = width" by (simp add: cc_def rw_def)
  have h: "0 < height"
    using assms(3) by (cases height) simp_all
  have Npos: "0 < N"
  proof (cases "rw = 0")
    case True
    then have "cc * cw = width" using split by simp
    then have "0 < cc" using assms(2) by (cases cc) simp_all
    then show ?thesis by (simp add: N_def)
  next
    case False
    then show ?thesis by (simp add: N_def)
  qed
  have last: "L * cw + w = width" and wpos: "0 < w"
  proof -
    show "L * cw + w = width"
    proof (cases "rw = 0")
      case True
      then have cw: "cc * cw = width" using split by simp
      then have "0 < cc" using assms(2) by (cases cc) simp_all
      then have "L = cc - 1" "L \<noteq> cc" by (simp_all add: L_def N_def True)
      then have "L * cw + w = (cc - 1) * cw + cw" by (simp add: w_def)
      also have "\<dots> = cc * cw" using \<open>0 < cc\<close> by (cases cc) simp_all
      finally show ?thesis using cw by simp
    next
      case False
      then have "L = cc" by (simp add: L_def N_def)
      then show ?thesis using split by (simp add: w_def)
    qed
    show "0 < w"
    proof (cases "rw = 0")
      case True
      then have "cc * cw = width" using split by simp
      then have "0 < cc" using assms(2) by (cases cc) simp_all
      then have "L \<noteq> cc" by (simp add: L_def N_def True)
      then show ?thesis using assms(1) by (simp add: w_def)
    next
      case False
      then have "L = cc" by (simp add: L_def N_def)
      then show ?thesis using False by (simp add: w_def)
    qed
  qed
  define rows where "rows = map (chunk_row cw byte_list width cc rw L) [0..<height]"
  have le: "\<forall>xs \<in> set rows. length xs \<le> (w + 2) * 4"
    using length_chunk_row_le [of cw byte_list width cc rw L] by (auto simp: rows_def w_def)
  have "((height - 1) * width + L * cw) * 4 + w * 4 = width * height * 4"
  proof -
    have "((height - 1) * width + L * cw) * 4 + w * 4
        = ((height - 1) * width + (L * cw + w)) * 4"
      by (simp add: algebra_simps)
    also have "\<dots> = ((height - 1) * width + width) * 4" by (simp only: last)
    also have "(height - 1) * width + width = height * width"
      using h by (cases height) simp_all
    finally show ?thesis by (simp add: mult.commute)
  qed
  then have "length byte_list - ((height - 1) * width + L * cw) * 4 < w * 4"
    using assms(3) wpos by arith
  then have "length (py_slice byte_list (((height - 1) * width + L * cw) * 4)
                       (((height - 1) * width + L * cw) * 4 + w * 4)) < w * 4"
    by (simp add: py_slice_def)
  moreover have "chunk_row cw byte_list width cc rw L (height - 1)
      = padding @ py_slice byte_list (((height - 1) * width + L * cw) * 4)
                    (((height - 1) * width + L * cw) * 4 + w * 4) @ padding"
    by (simp add: chunk_row_def Let_def w_def)
  ultimately have "length (chunk_row cw byte_list width cc rw L (height - 1)) < (w + 2) * 4"
    by (simp add: length_padding)
  moreover have "chunk_row cw byte_list width cc rw L (height - 1) \<in> set rows"
    using h by (simp add: rows_def)
  ultimately have "\<exists>xs \<in> set rows. length xs < (w + 2) * 4" by blast
  from length_concat_short [OF le this]
  have "length (concat rows) < height * ((w + 2) * 4)" by (simp add: rows_def)
  then have "length (concat rows) \<noteq> (if L \<noteq> cc then cw + 2 else rw + 2) * height * 4"
    by (auto simp: w_def algebra_simps)
  then have bad: "build L = Inl ValueError"
    unfolding build_def rows_def by (auto simp: build_chunk_def Let_def)
  have "L \<in> set [0..<N]" using Npos by (simp add: L_def)
  moreover have "e' = ValueError" if "build j = Inl e'" for j e'
    using that build_chunk_error by (simp add: build_def)
  ultimately have "save_chunks build [0..<N] = Inl ValueError"
    using bad by (intro save_chunks_fails [where i = L and build = build]) simp_all
  then show ?thesis
    using assms(1) by (simp add: chunk_images_def Let_def build_def N_def cc_def rw_def)
qed

subsection \<open>The operator\<close>

lemma range_len_cases:
  "(step = 0 \<and> range_len start stop step = Inl ValueError)
   \<or> (step \<noteq> 0 \<and> (\<exists>n. range_len start stop step = Inr n))"
  by (simp add: range_len_def)

lemma frame_range_len_set_metric [simp]:
  "frame_range_len (set_metric_units sc) = frame_range_len sc"
  by (simp add: frame_range_len_def set_metric_units_def)

lemma py_round2_hundredth: "py_round2 (1 / 100) = 1 / 100"
  by (simp add: py_round2_def Let_def)

text \<open>
  C8, amended. When the summed vertex count of the selected mesh objects exceeds 2048,
  or the frame count exceeds 1024, \<open>execute\<close> does not finish and has done nothing
  but set the metric units: no mesh is sampled, no UV, plane or image is computed,
  nothing is exported. With a frame step other than 0 it reports an error and returns
  \<open>CANCELLED\<close>; with a frame step of 0 Python's \<open>range\<close> raises \<open>ValueError\<close> at the
  frame count, before any check, and nothing is reported.
\<close>

theorem limits_checked_first:
  assumes "2048 < sum_list (map vertices_count
                             (filter (\<lambda>ob. ob_type ob = ''MESH'') selected_objects))
           \<or> (\<exists>frame_count. frame_range_len sc0 = Inr frame_count \<and> 1024 < frame_count)"
  shows "list_all (\<lambda>e. \<not> is_work e) (trace (execute sc0 selected_objects myname meshes loops))
       \<and> outcome (execute sc0 selected_objects myname meshes loops) \<noteq> Inr FINISHED
       \<and> saved_images (execute sc0 selected_objects myname meshes loops) = []
       \<and> (if frame_step sc0 = 0
          then outcome (execute sc0 selected_objects myname meshes loops) = Inl ValueError
          else outcome (execute sc0 selected_objects myname meshes loops) = Inr CANCELLED
               \<and> (\<exists>r. trace (execute sc0 selected_objects myname meshes loops)
                        = [Set_metric_units, Report_error r]))"
proof -
  define vertex_count where "vertex_count = sum_list (map vertices_count
                             (filter (\<lambda>ob. ob_type ob = ''MESH'') selected_objects))"
  consider (zero) "frame_step sc0 = 0" "frame_range_len sc0 = Inl ValueError"
    | (count) n where "frame_step sc0 \<noteq> 0" "frame_range_len sc0 = Inr n"
    using range_len_cases [of "frame_step sc0" "frame_start sc0" "frame_end sc0"]
    by (auto simp: frame_range_len_def)
  then show ?thesis
  proof cases
    case zero
    then show ?thesis by (simp add: execute_def Let_def)
  next
    case count
    have limit: "2048 < vertex_count \<or> 1024 < n"
      using assms count(2) by (auto simp: vertex_count_def)
    have "\<exists>r. execute sc0 selected_objects myname meshes loops
              = cancelled (set_metric_units sc0) r"
      using limit count(2)
      by (auto simp: execute_def Let_def vertex_count_def split: option.splits)
    then obtain r where "execute sc0 selected_objects myname meshes loops
              = cancelled (set_metric_units sc0) r" by blast
    then show ?thesis using count(1) by (simp add: cancelled_def)
  qed
qed

theorem limits_checked_first_witness:
  "execute \<lparr>frame_start = 1, frame_end = 2000, frame_step = 1, unit_system = ''IMPERIAL'',
            scale_length = 1, display_device = ''sRGB'', scale_factor = 1\<rparr>
      [\<lparr>ob_type = ''MESH'', vertices_count = 8, modifiers = [''ARMATURE'']\<rparr>] ''Cube'' [] []
   = \<lparr>outcome = Inr CANCELLED,
      trace = [Set_metric_units, Report_error (Frame_count_exceeds 1999)],
      scene_after = \<lparr>frame_start = 1, frame_end = 2000, frame_step = 1,
                      unit_system = ''METRIC'', scale_length = 1 / 100,
                      display_device = ''sRGB'', scale_factor = 1\<rparr>,
      export_uvs = [], saved_images = []\<rparr>"
proof -
  define sc where "sc = \<lparr>frame_start = 1, frame_end = 2000, frame_step = 1,
            unit_system = ''IMPERIAL'', scale_length = 1, display_device = ''sRGB'',
            scale_factor = 1\<rparr>"
  define obs where "obs = [\<lparr>ob_type = ''MESH'', vertices_count = 8, modifiers = [''ARMATURE'']\<rparr>]"
  have fc: "frame_range_len sc = Inr 1999"
    by (simp add: sc_def frame_range_len_def range_len_def)
  then have "2048 < sum_list (map vertices_count (filter (\<lambda>ob. ob_type ob = ''MESH'') obs))
           \<or> (\<exists>frame_count. frame_range_len sc = Inr frame_count \<and> 1024 < frame_count)"
    by simp
  from limits_checked_first [OF this, of "''Cube''" "[]" "[]"]
  have "outcome (execute sc obs ''Cube'' [] []) = Inr CANCELLED"
    by (simp add: sc_def)
  moreover have "execute sc obs ''Cube'' [] []
      = cancelled (set_metric_units sc) (Frame_count_exceeds 1999)"
  proof -
    have u: "unit_system (set_metric_units sc) = ''METRIC''"
      "scale_length (set_metric_units sc) = 1 / 100"
      by (simp_all add: set_metric_units_def)
    have f: "find (\<lambda>mod_type. mod_type \<notin> set allowed_modifiers)
               (concat (map modifiers (filter (\<lambda>ob. ob_type ob = ''MESH'') obs))) = None"
      by (simp add: obs_def allowed_modifiers_def)
    have v: "sum_list (map vertices_count (filter (\<lambda>ob. ob_type ob = ''MESH'') obs)) = 8"
      by (simp add: obs_def)
    show ?thesis
      by (simp add: execute_def Let_def fc u f v py_round2_hundredth)
  qed
  ultimately show ?thesis
    by (simp add: cancelled_def set_metric_units_def sc_def obs_def)
qed

text \<open>
  C8 as stated (every run over a limit fails with a precondition error) does not hold
  for a frame step of 0: with 2049 vertices the run ends in the \<open>ValueError\<close> of
  \<open>range\<close>, without a report and without \<open>CANCELLED\<close>.
\<close>

theorem limits_checked_first_counterexample:
  "2048 < sum_list (map vertices_count (filter (\<lambda>ob. ob_type ob = ''MESH'')
             [\<lparr>ob_type = ''MESH'', vertices_count = 2049, modifiers = []\<rparr>]))
   \<and> execute \<lparr>frame_start = 1, frame_end = 10, frame_step = 0, unit_system = ''METRIC'',
               scale_length = 1 / 100, display_device = ''sRGB'', scale_factor = 1\<rparr>
        [\<lparr>ob_type = ''MESH'', vertices_count = 2049, modifiers = []\<rparr>] ''Cube'' [] []
      = \<lparr>outcome = Inl ValueError, trace = [Set_metric_units],
         scene_after = \<lparr>frame_start = 1, frame_end = 10, frame_step = 0,
                         unit_system = ''METRIC'', scale_length = 1 / 100,
                         display_device = ''sRGB'', scale_factor = 1\<rparr>,
         export_uvs = [], saved_images = []\<rparr>"
  by (simp add: execute_def Let_def frame_range_len_def range_len_def set_metric_units_def)

subsection \<open>Frames of differing size\<close>

lemma sum_lengths_short:
  assumes "list_all (\<lambda>me. length me \<le> n) mes"
    and "\<not> list_all (\<lambda>me. length me = n) mes"
  shows "sum_list (map length mes) < length mes * n"
  using assms
proof (induction mes)
  case Nil
  then show ?case by simp
next
  case (Cons me mes)
  then have le: "length me \<le> n" and rest: "list_all (\<lambda>me. length me \<le> n) mes"
    by simp_all
  have all: "sum_list (map length mes) \<le> length mes * n"
    using rest by (induction mes) auto
  show ?case
  proof (cases "length me = n")
    case True
    then have "\<not> list_all (\<lambda>me. length me = n) mes" using Cons.prems(2) by simp
    from Cons.IH [OF rest this] show ?thesis using True by simp
  next
    case False
    then have "length me < n" using le by simp
    then show ?thesis using all by simp
  qed
qed

lemma write_output_image_short:
  assumes "list_all (\<lambda>v. 0 \<le> v \<and> v \<le> 1) vs"
    and "0 < width" and "length vs < width * height * 4"
  shows "write_output_image (map Finite vs) name (width, height) = Inl ValueError"
proof -
  from byte_planes_unit [OF assms(1)]
  obtain bytes where l: "length bytes = length vs"
    and p: "byte_planes (map Finite vs)
          = Inr (map (\<lambda>b. double_round (real_of_int (fst b) / 255)) bytes,
                 map (\<lambda>b. double_round (real_of_int (snd b) / 255)) bytes)"
    by blast
  have "length (map (\<lambda>b. double_round (real_of_int (fst b) / 255)) bytes)
          < width * height * 4"
    using assms(3) l by simp
  then have "chunk_images chunk_width (map (\<lambda>b. double_round (real_of_int (fst b) / 255)) bytes)
               (name @ ''_high'') (width, height) = Inl ValueError"
    using assms(2) by (intro chunk_images_short) (simp_all add: chunk_width_def)
  then show ?thesis
    using p by (simp add: write_output_image_def create_and_save_image_def)
qed

lemma mismatch_is_short:
  assumes "list_all (\<lambda>me. length me \<le> length (hd meshes)) meshes"
    and "\<not> list_all (\<lambda>me. length me = length (hd meshes)) meshes"
  shows "0 < length (hd meshes)"
    and "4 * sum_list (map length meshes) < length (hd meshes) * length meshes * 4"
proof -
  have "sum_list (map length meshes) < length meshes * length (hd meshes)"
    by (rule sum_lengths_short [OF assms])
  then show "4 * sum_list (map length meshes) < length (hd meshes) * length meshes * 4"
    by (simp add: mult.commute)
  show "0 < length (hd meshes)"
  proof (rule ccontr)
    assume "\<not> 0 < length (hd meshes)"
    then have z: "length (hd meshes) = 0" by simp
    then have "list_all (\<lambda>me. length me = length (hd meshes)) meshes"
      using assms(1) by (simp add: list_all_iff)
    then show False using assms(2) by simp
  qed
qed

lemma bake_stage_mismatch:
  assumes "meshes \<noteq> []"
    and "\<not> list_all (\<lambda>me. length me = length (hd meshes)) meshes"
  shows "\<exists>e. outcome (bake_stage sc original_settings (length (hd meshes)) (length meshes)
                         myname meshes loops) = Inl e"
proof -
  obtain export_mesh_data rest where ms: "meshes = export_mesh_data # rest"
    using assms(1) by (cases meshes) simp_all
  show ?thesis
  proof (cases "create_export_mesh_object (length export_mesh_data) loops")
    case (Inl e)
    then show ?thesis by (simp add: bake_stage_def Let_def ms)
  next
    case uv: (Inr uvs)
    show ?thesis
    proof (cases "list_all (\<lambda>me. length me \<le> length (hd meshes)) meshes")
      case False
      from get_vertex_data_too_long [OF assms(1) False]
      have "get_vertex_data (export_mesh_data # rest) = Inl IndexError" by (simp add: ms)
      then show ?thesis using uv by (simp add: bake_stage_def Let_def ms)
    next
      case True
      from get_vertex_data_rows [OF assms(1) True]
      obtain sf offsets normals where g: "get_vertex_data meshes = Inr (sf, offsets, normals)"
        and o: "offsets = concat (map (frame_offsets (hd meshes) sf) (rev meshes))"
        by blast
      have unit: "list_all (\<lambda>v. 0 \<le> v \<and> v \<le> 1) offsets"
        by (rule offsets_unit [OF assms(1) True g])
      have "length offsets = 4 * sum_list (map length meshes)"
        by (simp add: o length_planes)
      then have short: "length offsets < length (hd meshes) * length meshes * 4"
        using mismatch_is_short(2) [OF True assms(2)] by simp
      have "write_output_image (map Finite offsets) (myname @ ''_position'')
              (length (hd meshes), length meshes) = Inl ValueError"
        by (rule write_output_image_short [OF unit mismatch_is_short(1) [OF True assms(2)] short])
      then have "bake_vertex_data (map Finite offsets) (map Finite normals)
              (length export_mesh_data, Suc (length rest)) myname = Inl ValueError"
        by (simp add: bake_vertex_data_def ms)
      moreover have "get_vertex_data (export_mesh_data # rest) = Inr (sf, offsets, normals)"
        using g by (simp add: ms)
      ultimately show ?thesis
        using uv by (simp add: bake_stage_def Let_def ms)
    qed
  qed
qed




subsection \<open>A complete run\<close>

lemma chunk_images_accepts:
  assumes "0 < cw" and "length byte_list = width * height * 4"
  shows "\<exists>images. chunk_images cw byte_list name (width, height) = Inr images"
proof -
  define N where "N = width div cw + (if width mod cw \<noteq> 0 then 1 else 0)"
  define build where
    "build = build_chunk cw byte_list name width height (width div cw) (width mod cw)"
  have "\<exists>im. build i = Inr im" if "i < N" for i
    unfolding build_def
    using chunk_bytes_length [OF assms, of i] that
    by (intro build_chunk_accepts) (simp add: N_def)
  then have "list_all (\<lambda>i. \<exists>im. build i = Inr im) [0..<N]"
    by (simp add: list_all_iff)
  from save_chunks_all [OF this]
  obtain images where "save_chunks build [0..<N] = Inr images" by blast
  then show ?thesis
    using assms(1) by (simp add: chunk_images_def Let_def build_def N_def)
qed

lemma write_output_image_full:
  assumes "list_all (\<lambda>v. 0 \<le> v \<and> v \<le> 1) vs" and "length vs = width * height * 4"
  shows "\<exists>images. write_output_image (map Finite vs) name (width, height) = Inr images"
proof -
  from byte_planes_unit [OF assms(1)]
  obtain bytes where l: "length bytes = length vs"
    and p: "byte_planes (map Finite vs)
          = Inr (map (\<lambda>b. double_round (real_of_int (fst b) / 255)) bytes,
                 map (\<lambda>b. double_round (real_of_int (snd b) / 255)) bytes)"
    by blast
  have cw: "0 < chunk_width" by (simp add: chunk_width_def)
  have "length (map (\<lambda>b. double_round (real_of_int (fst b) / 255)) bytes)
      = width * height * 4"
    using l assms(2) by simp
  from chunk_images_accepts [OF cw this]
  obtain hi where hi: "chunk_images chunk_width
      (map (\<lambda>b. double_round (real_of_int (fst b) / 255)) bytes) (name @ ''_high'')
      (width, height) = Inr hi"
    by blast
  have "length (map (\<lambda>b. double_round (real_of_int (snd b) / 255)) bytes)
      = width * height * 4"
    using l assms(2) by simp
  from chunk_images_accepts [OF cw this]
  obtain lo where lo: "chunk_images chunk_width
      (map (\<lambda>b. double_round (real_of_int (snd b) / 255)) bytes) (name @ ''_low'')
      (width, height) = Inr lo"
    by blast
  show ?thesis
    using p hi lo by (simp add: write_output_image_def create_and_save_image_def)
qed

text \<open>A run on a small scene of two frames of two vertices passes the checks and finishes.\<close>

lemma small_scene_finishes:
  "outcome (execute \<lparr>frame_start = 1, frame_end = 3, frame_step = 1, unit_system = ''METRIC'',
            scale_length = 1, display_device = ''sRGB'', scale_factor = 1\<rparr>
      [\<lparr>ob_type = ''MESH'', vertices_count = 2, modifiers = [''ARMATURE'']\<rparr>] ''Cube''
      [[\<lparr>co = (0, 0, 0), normal = (0, 0, 1)\<rparr>, \<lparr>co = (1, 0, 0), normal = (0, 0, 1)\<rparr>],
       [\<lparr>co = (0, 3, 4), normal = (0, 0, 1)\<rparr>, \<lparr>co = (1, 0, 0), normal = (0, 1, 0)\<rparr>]]
      [0, 1, 1, 0])
   = Inr FINISHED"
proof -
  define ms :: "mesh list" where
    "ms = [[\<lparr>co = (0, 0, 0), normal = (0, 0, 1)\<rparr>, \<lparr>co = (1, 0, 0), normal = (0, 0, 1)\<rparr>],
       [\<lparr>co = (0, 3, 4), normal = (0, 0, 1)\<rparr>, \<lparr>co = (1, 0, 0), normal = (0, 1, 0)\<rparr>]]"
  define sc where "sc = \<lparr>frame_start = 1, frame_end = 3, frame_step = 1,
      unit_system = ''METRIC'', scale_length = 1, display_device = ''sRGB'',
      scale_factor = 1\<rparr>"
  define obs :: "scene_object list" where
    "obs = [\<lparr>ob_type = ''MESH'', vertices_count = 2, modifiers = [''ARMATURE'']\<rparr>]"
  define offs :: "real list" where
    "offs = [1 / 2, 1 / 5, 9 / 10, 1, 1 / 2, 1 / 2, 1 / 2, 1,
             1 / 2, 1 / 2, 1 / 2, 1, 1 / 2, 1 / 2, 1 / 2, 1]"
  define norms :: "real list" where
    "norms = [1 / 2, 1 / 2, 1, 1, 1 / 2, 1, 1 / 2, 1,
              1 / 2, 1 / 2, 1, 1, 1 / 2, 1 / 2, 1, 1]"
  have g: "get_vertex_data ms = Inr (5, offs, norms)"
    by (simp add: ms_def offs_def norms_def get_vertex_data_def vec_length_def vec_sub_def
        vec_div_def offset_pixel_def normal_pixel_def Let_def)
  have uv: "\<exists>uvs. create_export_mesh_object (length (hd ms)) [0, 1, 1, 0] = Inr uvs"
    by (simp add: ms_def create_export_mesh_object_def export_mesh_uvs_def chunk_width_def
        loop_uv_def Let_def)
  have "list_all (\<lambda>v. 0 \<le> v \<and> v \<le> 1) offs" "length offs = 2 * 2 * 4"
    by (simp_all add: offs_def)
  from write_output_image_full [OF this]
  obtain pos where pos: "write_output_image (map Finite offs) (''Cube'' @ ''_position'') (2, 2)
      = Inr pos"
    by blast
  have "list_all (\<lambda>v. 0 \<le> v \<and> v \<le> 1) norms" "length norms = 2 * 2 * 4"
    by (simp_all add: norms_def)
  from write_output_image_full [OF this]
  obtain nor where nor: "write_output_image (map Finite norms) (''Cube'' @ ''_normal'') (2, 2)
      = Inr nor"
    by blast
  have bake: "bake_vertex_data (map Finite offs) (map Finite norms) (2, 2) ''Cube''
      = Inr (pos @ nor)"
    using pos nor by (simp add: bake_vertex_data_def)
  obtain uvs where uvs: "create_export_mesh_object (length (hd ms)) [0, 1, 1, 0] = Inr uvs"
    using uv by blast
  have b: "outcome (bake_stage (set_metric_units sc) (unit_system sc, scale_length sc) 2 2
      ''Cube'' ms [0, 1, 1, 0]) = Inr FINISHED"
    using g uvs bake by (simp add: bake_stage_def Let_def ms_def)
  have fc: "frame_range_len sc = Inr 2"
    by (simp add: sc_def frame_range_len_def range_len_def)
  have u: "unit_system (set_metric_units sc) = ''METRIC''"
    "scale_length (set_metric_units sc) = 1 / 100"
    by (simp_all add: set_metric_units_def)
  have f: "find (\<lambda>mod_type. mod_type \<notin> set allowed_modifiers)
             (concat (map modifiers (filter (\<lambda>ob. ob_type ob = ''MESH'') obs))) = None"
    by (simp add: obs_def allowed_modifiers_def)
  have vc: "sum_list (map vertices_count (filter (\<lambda>ob. ob_type ob = ''MESH'') obs)) = 2"
    by (simp add: obs_def)
  have "execute sc obs ''Cube'' ms [0, 1, 1, 0]
      = bake_stage (set_metric_units sc) (unit_system sc, scale_length sc) 2 2 ''Cube'' ms
          [0, 1, 1, 0]"
    by (simp add: execute_def Let_def fc u f vc py_round2_hundredth)
  then show ?thesis
    using b by (simp add: ms_def sc_def obs_def)
qed

end
